theory Spec2Isabelle
  imports Main "HOL-Library.Char_ord" "HOL-Library.List_Lexorder" "HOL-Library.Multiset"
begin

section \<open>Strings and characters\<close>

text \<open>
  A Python \<open>str\<close> that holds URL text is modelled as a \<open>string\<close>: a list of
  characters, each one the code point of the same number (U+0000 to U+00FF). The text that
  \<open>parse_qs\<close> decodes out of a query can hold any code point, so decoded names and
  values are lists of code points (\<open>nat list\<close>). Bytes are numbers below 256.
\<close>

type_synonym ustr = "nat list"

definition ord :: "char \<Rightarrow> nat" where
  "ord c = of_char c"

definition chr :: "nat \<Rightarrow> char" where
  "chr n = char_of n"

definition ustr_of :: "string \<Rightarrow> ustr" where
  "ustr_of s = map ord s"

definition isascii :: "char \<Rightarrow> bool" where
  "isascii c = (ord c < 128)"

definition ascii_isalpha :: "char \<Rightarrow> bool" where
  "ascii_isalpha c = ((65 \<le> ord c \<and> ord c \<le> 90) \<or> (97 \<le> ord c \<and> ord c \<le> 122))"

definition isdigit :: "char \<Rightarrow> bool" where
  "isdigit c = (48 \<le> ord c \<and> ord c \<le> 57)"

text \<open>\<open>str.lower()\<close> on code points below 256: A-Z and the Latin-1 capitals
  U+00C0 to U+00DE (U+00D7, the multiplication sign, apart) move up by 32.\<close>

definition lower_char :: "char \<Rightarrow> char" where
  "lower_char c =
     (if (65 \<le> ord c \<and> ord c \<le> 90) \<or> (192 \<le> ord c \<and> ord c \<le> 222 \<and> ord c \<noteq> 215)
      then chr (ord c + 32) else c)"

definition lower :: "string \<Rightarrow> string" where
  "lower s = map lower_char s"

text \<open>\<open>s.split(sep)\<close> for a one-character separator: always at least one piece.\<close>

fun split :: "char \<Rightarrow> string \<Rightarrow> string list" where
  "split sep [] = [[]]"
| "split sep (c # cs) =
     (if c = sep then [] # split sep cs
      else (case split sep cs of p # ps \<Rightarrow> (c # p) # ps | [] \<Rightarrow> [[c]]))"

text \<open>\<open>s.partition(sep)\<close>: the text before the first separator, whether a
  separator was found, and the text after it.\<close>

definition partition_str :: "char \<Rightarrow> string \<Rightarrow> string \<times> bool \<times> string" where
  "partition_str sep s =
     (takeWhile (\<lambda>c. c \<noteq> sep) s, sep \<in> set s, drop 1 (dropWhile (\<lambda>c. c \<noteq> sep) s))"

text \<open>\<open>sep.join(parts)\<close>.\<close>

fun join :: "string \<Rightarrow> string list \<Rightarrow> string" where
  "join sep [] = []"
| "join sep [p] = p"
| "join sep (p # q # ps) = p @ sep @ join sep (q # ps)"

section \<open>UTF-8, as \<open>str.encode('utf-8', 'strict')\<close> and
  \<open>bytes.decode('utf-8', 'replace')\<close> do it\<close>

text \<open>Encoding one code point. A surrogate (U+D800 to U+DFFF) raises UnicodeEncodeError
  under \<open>errors='strict'\<close>; a number from 0x110000 on is no code point at all.\<close>

definition utf8_encode_cp :: "nat \<Rightarrow> nat list option" where
  "utf8_encode_cp cp =
     (if cp < 0x80 then Some [cp]
      else if cp < 0x800 then Some [0xC0 + cp div 64, 0x80 + cp mod 64]
      else if 0xD800 \<le> cp \<and> cp < 0xE000 then None
      else if cp < 0x10000 then
        Some [0xE0 + cp div 4096, 0x80 + (cp div 64) mod 64, 0x80 + cp mod 64]
      else if cp < 0x110000 then
        Some [0xF0 + cp div 262144, 0x80 + (cp div 4096) mod 64,
              0x80 + (cp div 64) mod 64, 0x80 + cp mod 64]
      else None)"

fun utf8_encode :: "ustr \<Rightarrow> nat list option" where
  "utf8_encode [] = Some []"
| "utf8_encode (cp # cps) =
     (case utf8_encode_cp cp of
        None \<Rightarrow> None
      | Some bs \<Rightarrow> (case utf8_encode cps of None \<Rightarrow> None | Some r \<Rightarrow> Some (bs @ r)))"

definition is_cont :: "nat \<Rightarrow> bool" where
  "is_cont b = (0x80 \<le> b \<and> b < 0xC0)"

definition REPLACEMENT :: nat where
  "REPLACEMENT = 0xFFFD"

text \<open>
  Decoding with \<open>errors='replace'\<close>, after CPython's decoder: an invalid start byte is
  replaced alone; a sequence broken by an invalid continuation byte is replaced up to (not
  including) that byte; a sequence cut short by the end of the input is replaced as a whole.
  Each replacement is one U+FFFD.
\<close>

fun utf8_decode :: "nat list \<Rightarrow> ustr" where
  "utf8_decode [] = []"
| "utf8_decode (b # bs) =
     (if b < 0x80 then b # utf8_decode bs
      else if b < 0xC2 then REPLACEMENT # utf8_decode bs
      else if b < 0xE0 then
        (case bs of
           [] \<Rightarrow> [REPLACEMENT]
         | b2 # r2 \<Rightarrow>
             if \<not> is_cont b2 then REPLACEMENT # utf8_decode bs
             else ((b - 0xC0) * 64 + (b2 - 0x80)) # utf8_decode r2)
      else if b < 0xF0 then
        (case bs of
           [] \<Rightarrow> [REPLACEMENT]
         | b2 # r2 \<Rightarrow>
             if \<not> is_cont b2 \<or> (b = 0xE0 \<and> b2 < 0xA0) \<or> (b = 0xED \<and> 0xA0 \<le> b2)
             then REPLACEMENT # utf8_decode bs
             else (case r2 of
                     [] \<Rightarrow> [REPLACEMENT]
                   | b3 # r3 \<Rightarrow>
                       if \<not> is_cont b3 then REPLACEMENT # utf8_decode r2
                       else ((b - 0xE0) * 4096 + (b2 - 0x80) * 64 + (b3 - 0x80))
                              # utf8_decode r3))
      else if b < 0xF5 then
        (case bs of
           [] \<Rightarrow> [REPLACEMENT]
         | b2 # r2 \<Rightarrow>
             if \<not> is_cont b2 \<or> (b = 0xF0 \<and> b2 < 0x90) \<or> (b = 0xF4 \<and> 0x90 \<le> b2)
             then REPLACEMENT # utf8_decode bs
             else (case r2 of
                     [] \<Rightarrow> [REPLACEMENT]
                   | b3 # r3 \<Rightarrow>
                       if \<not> is_cont b3 then REPLACEMENT # utf8_decode r2
                       else (case r3 of
                               [] \<Rightarrow> [REPLACEMENT]
                             | b4 # r4 \<Rightarrow>
                                 if \<not> is_cont b4 then REPLACEMENT # utf8_decode r3
                                 else ((b - 0xF0) * 262144 + (b2 - 0x80) * 4096
                                        + (b3 - 0x80) * 64 + (b4 - 0x80))
                                        # utf8_decode r4)))
      else REPLACEMENT # utf8_decode bs)"

section \<open>The standard library's \<open>urllib.parse\<close> (CPython 3.11)\<close>

text \<open>
  The program calls \<open>urlsplit\<close>, \<open>urlunsplit\<close>, \<open>parse_qs\<close> and
  \<open>urlencode\<close> of the standard library. They are modelled here as CPython 3.11
  defines them, for the arguments the program passes (a \<open>str\<close>, default keyword
  arguments, \<open>doseq=True\<close>).
\<close>

datatype error =
    ValueError
  | UnicodeEncodeError
  | OSError
  | Exception string

record SplitResult =
  scheme :: string
  netloc :: string
  path :: string
  query :: string
  fragment :: string

text \<open>
  Two checks of \<open>urlsplit\<close> only decide whether it raises ValueError, and rest on
  modules that are not modelled (\<open>ipaddress\<close> and \<open>unicodedata\<close>): the check of
  a bracketed host, and the check of a non-ASCII netloc under NFKC normalisation. They are
  parameters of the model.
\<close>

record stdlib =
  bracketed_host_ok :: "string \<Rightarrow> bool"
  nfkc_netloc_ok :: "string \<Rightarrow> bool"

definition scheme_chars :: string where
  "scheme_chars =
     ''abcdefghijklmnopqrstuvwxyz'' @ ''ABCDEFGHIJKLMNOPQRSTUVWXYZ'' @ ''0123456789'' @ ''+-.''"

definition uses_netloc :: "string list" where
  "uses_netloc =
     [[], ''ftp'', ''http'', ''gopher'', ''nntp'', ''telnet'',
      ''imap'', ''wais'', ''file'', ''mms'', ''https'', ''shttp'',
      ''snews'', ''prospero'', ''rtsp'', ''rtsps'', ''rtspu'', ''rsync'',
      ''svn'', ''svn+ssh'', ''sftp'', ''nfs'', ''git'', ''git+ssh'',
      ''ws'', ''wss'']"

definition c0_control_or_space :: "char \<Rightarrow> bool" where
  "c0_control_or_space c = (ord c \<le> 32)"

definition unsafe_url_byte :: "char \<Rightarrow> bool" where
  "unsafe_url_byte c = (ord c = 9 \<or> ord c = 13 \<or> ord c = 10)"

definition netloc_delim :: "char \<Rightarrow> bool" where
  "netloc_delim c = (c = CHR ''/'' \<or> c = CHR ''?'' \<or> c = CHR ''#'')"

text \<open>\<open>_splitnetloc(url, 2)\<close>: from index 2 up to the first of \<open>/\<close>, \<open>?\<close>,
  \<open>#\<close>, and the rest.\<close>

definition splitnetloc :: "string \<Rightarrow> string \<times> string" where
  "splitnetloc url =
     (takeWhile (\<lambda>c. \<not> netloc_delim c) (drop 2 url),
      dropWhile (\<lambda>c. \<not> netloc_delim c) (drop 2 url))"

text \<open>The scheme, when the text before the first colon is not empty, starts with an
  ASCII letter and holds scheme characters only; the scheme is lowered.\<close>

definition split_scheme :: "string \<Rightarrow> string \<times> string" where
  "split_scheme url =
     (let pre = takeWhile (\<lambda>c. c \<noteq> CHR '':'') url in
      if CHR '':'' \<in> set url \<and> pre \<noteq> [] \<and> isascii (hd url) \<and> ascii_isalpha (hd url)
         \<and> (\<forall>c \<in> set pre. c \<in> set scheme_chars)
      then (lower pre, drop (length pre + 1) url)
      else ([], url))"

definition urlsplit :: "stdlib \<Rightarrow> string \<Rightarrow> error + SplitResult" where
  "urlsplit lib link =
     (let url0 = dropWhile c0_control_or_space link;
          url1 = filter (\<lambda>c. \<not> unsafe_url_byte c) url0;
          (sch, url2) = split_scheme url1;
          (loc, url3) = (if take 2 url2 = ''//'' then splitnetloc url2 else ([], url2))
      in if take 2 url2 = ''//'' \<and>
            ((CHR ''['' \<in> set loc \<and> CHR '']'' \<notin> set loc) \<or>
             (CHR '']'' \<in> set loc \<and> CHR ''['' \<notin> set loc))
         then Inl ValueError
         else if take 2 url2 = ''//'' \<and> CHR ''['' \<in> set loc \<and> CHR '']'' \<in> set loc \<and>
                 \<not> bracketed_host_ok lib
                     (fst (partition_str CHR '']'' (snd (snd (partition_str CHR ''['' loc)))))
         then Inl ValueError
         else
           let (url4, frag) =
                 (if CHR ''#'' \<in> set url3
                  then (takeWhile (\<lambda>c. c \<noteq> CHR ''#'') url3,
                        drop 1 (dropWhile (\<lambda>c. c \<noteq> CHR ''#'') url3))
                  else (url3, []));
               (url5, qry) =
                 (if CHR ''?'' \<in> set url4
                  then (takeWhile (\<lambda>c. c \<noteq> CHR ''?'') url4,
                        drop 1 (dropWhile (\<lambda>c. c \<noteq> CHR ''?'') url4))
                  else (url4, []))
           in if loc \<noteq> [] \<and> \<not> (\<forall>c \<in> set loc. isascii c) \<and> \<not> nfkc_netloc_ok lib loc
              then Inl ValueError
              else Inr \<lparr>scheme = sch, netloc = loc, path = url5, query = qry,
                        fragment = frag\<rparr>)"

definition urlunsplit :: "string \<times> string \<times> string \<times> string \<times> string \<Rightarrow> string" where
  "urlunsplit components =
     (case components of (sch, loc, url, qry, frag) \<Rightarrow>
        let url1 = (if loc \<noteq> [] \<or> (sch \<noteq> [] \<and> sch \<in> set uses_netloc) \<or> take 2 url = ''//''
                    then ''//'' @ loc @
                         (if url \<noteq> [] \<and> take 1 url \<noteq> ''/'' then CHR ''/'' # url else url)
                    else url);
            url2 = (if sch \<noteq> [] then sch @ '':'' @ url1 else url1);
            url3 = (if qry \<noteq> [] then url2 @ ''?'' @ qry else url2)
        in if frag \<noteq> [] then url3 @ ''#'' @ frag else url3)"

subsection \<open>Percent-decoding: \<open>unquote_plus\<close>\<close>

definition hexdig :: string where
  "hexdig = ''0123456789ABCDEFabcdef''"

definition hexval :: "char \<Rightarrow> nat" where
  "hexval c =
     (if isdigit c then ord c - 48
      else if 97 \<le> ord c then ord c - 87
      else ord c - 55)"

text \<open>\<open>unquote_to_bytes\<close> on ASCII text: a percent sign followed by two hex digits
  is the byte they spell; any other percent sign stays.\<close>

fun unquote_to_bytes :: "string \<Rightarrow> nat list" where
  "unquote_to_bytes [] = []"
| "unquote_to_bytes (c # cs) =
     (if c = CHR ''%'' then
        (case cs of
           h1 # h2 # r \<Rightarrow>
             if h1 \<in> set hexdig \<and> h2 \<in> set hexdig
             then (16 * hexval h1 + hexval h2) # unquote_to_bytes r
             else ord c # unquote_to_bytes cs
         | _ \<Rightarrow> ord c # unquote_to_bytes cs)
      else ord c # unquote_to_bytes cs)"

text \<open>\<open>unquote\<close> splits the text into runs of ASCII and of non-ASCII characters;
  each ASCII run is percent-decoded and then decoded as UTF-8, each non-ASCII run is
  kept. Text without a percent sign is returned as it is.\<close>

function unquote_runs :: "string \<Rightarrow> ustr" where
  "unquote_runs s =
     (if s = [] then []
      else utf8_decode (unquote_to_bytes (takeWhile isascii s))
           @ ustr_of (takeWhile (\<lambda>c. \<not> isascii c) (dropWhile isascii s))
           @ unquote_runs (dropWhile (\<lambda>c. \<not> isascii c) (dropWhile isascii s)))"
  by pat_completeness auto
termination
proof (relation "measure length")
  show "wf (measure length)" by simp
next
  fix s :: string
  assume ne: "s \<noteq> []"
  have a: "length (dropWhile (\<lambda>c. \<not> isascii c) (dropWhile isascii s))
             \<le> length (dropWhile isascii s)"
    by (rule length_dropWhile_le)
  show "(dropWhile (\<lambda>c. \<not> isascii c) (dropWhile isascii s), s) \<in> measure length"
  proof (cases s)
    case Nil
    with ne show ?thesis by simp
  next
    case (Cons c cs)
    show ?thesis
    proof (cases "isascii c")
      case True
      have "length (dropWhile isascii cs) \<le> length cs" by (rule length_dropWhile_le)
      with True Cons a show ?thesis by simp
    next
      case False
      have "length (dropWhile (\<lambda>c. \<not> isascii c) cs) \<le> length cs"
        by (rule length_dropWhile_le)
      with False Cons show ?thesis by simp
    qed
  qed
qed

definition unquote :: "string \<Rightarrow> ustr" where
  "unquote s = (if CHR ''%'' \<notin> set s then ustr_of s else unquote_runs s)"

definition unquote_plus :: "string \<Rightarrow> ustr" where
  "unquote_plus s = unquote (map (\<lambda>c. if c = CHR ''+'' then CHR '' '' else c) s)"

subsection \<open>\<open>parse_qs\<close>\<close>

definition parse_qsl :: "string \<Rightarrow> (ustr \<times> ustr) list" where
  "parse_qsl qs =
     (if qs = [] then []
      else concat (map (\<lambda>name_value.
             if name_value \<noteq> [] then
               (case partition_str CHR ''='' name_value of (name, has_eq, v) \<Rightarrow>
                  if v \<noteq> [] then [(unquote_plus name, unquote_plus v)] else [])
             else []) (split CHR ''&'' qs)))"

text \<open>A \<open>dict\<close> keeps its keys in insertion order: it is an association list with
  distinct keys.\<close>

type_synonym ('k, 'v) dict = "('k \<times> 'v) list"

fun dict_append :: "('k, 'v list) dict \<Rightarrow> 'k \<Rightarrow> 'v \<Rightarrow> ('k, 'v list) dict" where
  "dict_append [] name v = [(name, [v])]"
| "dict_append ((k, vs) # d) name v =
     (if k = name then (k, vs @ [v]) # d else (k, vs) # dict_append d name v)"

fun dict_set :: "('k, 'v) dict \<Rightarrow> 'k \<Rightarrow> 'v \<Rightarrow> ('k, 'v) dict" where
  "dict_set [] key v = [(key, v)]"
| "dict_set ((k, w) # d) key v =
     (if k = key then (k, v) # d else (k, w) # dict_set d key v)"

definition parse_qs :: "string \<Rightarrow> (ustr, ustr list) dict" where
  "parse_qs qs = foldl (\<lambda>parsed_result (name, v). dict_append parsed_result name v) []
                   (parse_qsl qs)"

subsection \<open>Percent-encoding: \<open>quote_plus\<close> and \<open>urlencode\<close>\<close>

definition ALWAYS_SAFE :: string where
  "ALWAYS_SAFE =
     ''ABCDEFGHIJKLMNOPQRSTUVWXYZ'' @ ''abcdefghijklmnopqrstuvwxyz'' @ ''0123456789'' @ ''_.-~''"

definition hex_upper :: "nat \<Rightarrow> char" where
  "hex_upper n = (if n < 10 then chr (48 + n) else chr (55 + n))"

text \<open>The \<open>_Quoter\<close>: a safe byte as its character, any other as \<open>%XX\<close>.\<close>

definition quoter :: "string \<Rightarrow> nat \<Rightarrow> string" where
  "quoter safe b =
     (if b < 128 \<and> chr b \<in> set (ALWAYS_SAFE @ safe) then [chr b]
      else [CHR ''%'', hex_upper (b div 16), hex_upper (b mod 16)])"

definition quote :: "ustr \<Rightarrow> string \<Rightarrow> error + string" where
  "quote s safe =
     (case utf8_encode s of
        None \<Rightarrow> Inl UnicodeEncodeError
      | Some bs \<Rightarrow> Inr (concat (map (quoter safe) bs)))"

definition quote_plus :: "ustr \<Rightarrow> error + string" where
  "quote_plus s =
     (if 32 \<notin> set s then quote s []
      else (case quote s '' '' of
              Inl e \<Rightarrow> Inl e
            | Inr q \<Rightarrow> Inr (map (\<lambda>c. if c = CHR '' '' then CHR ''+'' else c) q)))"

text \<open>\<open>urlencode(query, doseq=True)\<close> on a dict from names to lists of values: one
  \<open>name=value\<close> per value, joined by \<open>&\<close>.\<close>

fun urlencode_elts :: "string \<Rightarrow> ustr list \<Rightarrow> error + string list" where
  "urlencode_elts k [] = Inr []"
| "urlencode_elts k (elt # elts) =
     (case quote_plus elt of
        Inl e \<Rightarrow> Inl e
      | Inr q \<Rightarrow> (case urlencode_elts k elts of
                    Inl e \<Rightarrow> Inl e
                  | Inr l \<Rightarrow> Inr ((k @ ''='' @ q) # l)))"

fun urlencode_items :: "(ustr, ustr list) dict \<Rightarrow> error + string list" where
  "urlencode_items [] = Inr []"
| "urlencode_items ((k, v) # items) =
     (case quote_plus k of
        Inl e \<Rightarrow> Inl e
      | Inr kq \<Rightarrow> (case urlencode_elts kq v of
                     Inl e \<Rightarrow> Inl e
                   | Inr l \<Rightarrow> (case urlencode_items items of
                                 Inl e \<Rightarrow> Inl e
                               | Inr l' \<Rightarrow> Inr (l @ l'))))"

definition urlencode :: "(ustr, ustr list) dict \<Rightarrow> error + string" where
  "urlencode query_dict =
     (case urlencode_items query_dict of Inl e \<Rightarrow> Inl e | Inr l \<Rightarrow> Inr (join ''&'' l))"

section \<open>The program: \<open>tools/inspect_links.py\<close>\<close>

subsection \<open>Warnings\<close>

text \<open>
  The program records a warning at four places. A warning is modelled by the place that
  records it and the values it formats; \<open>render\<close> is the text of the f-string.
  The \<open>Warnings\<close> singleton is the list of the warnings recorded so far, passed
  through every function that can record one.
\<close>

datatype warning =
    Malformed string
  | Tracking string "ustr list"
  | Simplify string string
  | Duplicate string string string

text \<open>\<open>repr\<close> of a list of \<open>str\<close>, for names made of printable ASCII without
  quotes or backslashes (every tracking parameter is).\<close>

definition repr_str :: "ustr \<Rightarrow> string" where
  "repr_str k = [CHR 0x27] @ map chr k @ [CHR 0x27]"

definition repr_list :: "ustr list \<Rightarrow> string" where
  "repr_list ks = ''['' @ join '', '' (map repr_str ks) @ '']''"

fun render :: "warning \<Rightarrow> string" where
  "render (Malformed link) = ''possibly malformed link: '' @ link"
| "render (Tracking url found_tracking) =
     ''found tracking parameters on '' @ url @ '': '' @ repr_list found_tracking"
| "render (Simplify link reconstituted) =
     ''link can be simplified: '' @ link @ '' -> '' @ reconstituted"
| "render (Duplicate link file collision) =
     ''possible duplicate link '' @ link @ '' in file '' @ file
       @ '' (also found in '' @ collision"

type_synonym Warnings = "warning list"

definition warn :: "Warnings \<Rightarrow> warning \<Rightarrow> Warnings" where
  "warn warnings msg = warnings @ [msg]"

fun is_malformed :: "warning \<Rightarrow> bool" where
  "is_malformed (Malformed _) = True"
| "is_malformed _ = False"

fun is_tracking :: "warning \<Rightarrow> bool" where
  "is_tracking (Tracking _ _) = True"
| "is_tracking _ = False"

fun is_simplify :: "warning \<Rightarrow> bool" where
  "is_simplify (Simplify _ _) = True"
| "is_simplify _ = False"

fun is_duplicate_of :: "string \<Rightarrow> warning \<Rightarrow> bool" where
  "is_duplicate_of l (Duplicate link _ _) = (link = l)"
| "is_duplicate_of l _ = False"

subsection \<open>Constants\<close>

datatype re_atom = Digit | Lit char | AnyChar

text \<open>\<open>RE_FILENAME\<close>: \<open>\d\d\d\d-\d\d-\d\d-this-week-in-rust.md\<close>. The dot before
  \<open>md\<close> is not escaped: it matches any character but a newline.\<close>

definition RE_FILENAME :: "re_atom list" where
  "RE_FILENAME =
     [Digit, Digit, Digit, Digit, Lit CHR ''-'', Digit, Digit, Lit CHR ''-'', Digit, Digit]
     @ map Lit ''-this-week-in-rust'' @ [AnyChar] @ map Lit ''md''"

text \<open>\<open>pattern.match(s)\<close>: the pattern matches at the start of \<open>s\<close>; what follows
  the match is not looked at.\<close>

fun re_match :: "re_atom list \<Rightarrow> string \<Rightarrow> bool" where
  "re_match [] s = True"
| "re_match (a # as) [] = False"
| "re_match (a # as) (c # cs) =
     ((case a of Digit \<Rightarrow> isdigit c | Lit l \<Rightarrow> c = l | AnyChar \<Rightarrow> ord c \<noteq> 10)
      \<and> re_match as cs)"

text \<open>
  The names the naming convention means, \<open>YYYY-MM-DD-this-week-in-rust.md\<close>: four
  digits, two digits and two digits with dashes between them, then exactly
  \<open>-this-week-in-rust.md\<close>, and nothing after it. \<open>full_match\<close> matches a whole
  name against a pattern.
\<close>

fun full_match :: "re_atom list \<Rightarrow> string \<Rightarrow> bool" where
  "full_match [] [] = True"
| "full_match [] (c # cs) = False"
| "full_match (a # as) [] = False"
| "full_match (a # as) (c # cs) =
     ((case a of Digit \<Rightarrow> isdigit c | Lit l \<Rightarrow> c = l | AnyChar \<Rightarrow> ord c \<noteq> 10)
      \<and> full_match as cs)"

definition DATED_NAME :: "re_atom list" where
  "DATED_NAME =
     [Digit, Digit, Digit, Digit, Lit CHR ''-'', Digit, Digit, Lit CHR ''-'', Digit, Digit]
     @ map Lit ''-this-week-in-rust.md''"

definition dated_name :: "string \<Rightarrow> bool" where
  "dated_name f = full_match DATED_NAME f"

text \<open>One atom matches every character that another matches.\<close>

fun atom_le :: "re_atom \<Rightarrow> re_atom \<Rightarrow> bool" where
  "atom_le a AnyChar = (case a of Lit l \<Rightarrow> ord l \<noteq> 10 | Digit \<Rightarrow> True | AnyChar \<Rightarrow> True)"
| "atom_le a b = (a = b)"

definition TRACKING_PARAMETERS :: "ustr set" where
  "TRACKING_PARAMETERS =
     set (map ustr_of [''utm_source'', ''utm_campaign'', ''utm_medium'', ''utm_content''])"

definition STRICT_TITLES :: "string list" where
  "STRICT_TITLES =
     [''project/tooling updates'', ''observations/thoughts'', ''rust walkthroughs'',
      ''miscellaneous'']"

subsection \<open>\<open>is_strict_title\<close>\<close>

text \<open>\<open>tag.string\<close> is \<open>None\<close> for a heading with several children, and
  \<open>str(None)\<close> is \<open>'None'\<close>.\<close>

definition is_strict_title :: "string option \<Rightarrow> bool" where
  "is_strict_title title =
     (let title = (case title of None \<Rightarrow> ''None'' | Some t \<Rightarrow> t)
      in lower title \<in> set STRICT_TITLES)"

subsection \<open>\<open>scrub_parameters\<close> and \<open>parse_url\<close>\<close>

text \<open>The loop of \<open>scrub_parameters\<close> over \<open>query_dict.items()\<close>, with its two
  variables.\<close>

fun scrub_loop ::
  "(ustr, ustr list) dict \<Rightarrow> (ustr, ustr list) dict \<Rightarrow> ustr list
     \<Rightarrow> (ustr, ustr list) dict \<times> ustr list" where
  "scrub_loop [] filtered_dict found_tracking = (filtered_dict, found_tracking)"
| "scrub_loop ((k, v) # items) filtered_dict found_tracking =
     (if k \<in> TRACKING_PARAMETERS
      then scrub_loop items filtered_dict (found_tracking @ [k])
      else scrub_loop items (dict_set filtered_dict k v) found_tracking)"

definition scrub_parameters ::
  "string \<Rightarrow> string \<Rightarrow> Warnings \<Rightarrow> (error + string) \<times> Warnings" where
  "scrub_parameters url qry warnings =
     (let query_dict = parse_qs qry;
          (filtered_dict, found_tracking) = scrub_loop query_dict [] [];
          warnings1 = (if found_tracking \<noteq> [] then warn warnings (Tracking url found_tracking)
                       else warnings)
      in if filtered_dict = [] then (Inr [], warnings1)
         else (urlencode filtered_dict, warnings1))"

definition parse_url :: "stdlib \<Rightarrow> string \<Rightarrow> Warnings \<Rightarrow> (error + string) \<times> Warnings" where
  "parse_url lib link warnings =
     (case urlsplit lib link of
        Inl e \<Rightarrow> (Inl e, warnings)
      | Inr parsed_url \<Rightarrow>
          let warnings1 =
                (if scheme parsed_url \<notin> set [''mailto'', ''http'', ''https'']
                 then warn warnings (Malformed link) else warnings);
              (qry, warnings2) =
                (if query parsed_url \<noteq> []
                 then scrub_parameters link (query parsed_url) warnings1
                 else (Inr (query parsed_url), warnings1))
          in case qry of
               Inl e \<Rightarrow> (Inl e, warnings2)
             | Inr qry \<Rightarrow>
                 let reconstituted =
                       urlunsplit (scheme parsed_url, netloc parsed_url, path parsed_url, qry,
                                   fragment parsed_url)
                 in (Inr reconstituted,
                     if reconstituted \<noteq> link then warn warnings2 (Simplify link reconstituted)
                     else warnings2))"

text \<open>
  For \<open>extract_links\<close>, a parsed document is the list of its tags in document order, each with its name, its
  \<open>href\<close> attribute and its \<open>.string\<close>. Anchors carry an \<open>href\<close>: an anchor
  without one (\<open>tag.get('href')\<close> is \<open>None\<close>) is outside the model.
  \<open>find_all(tags)\<close> keeps the tags whose name is in the list.
\<close>

record tag =
  tag_name :: string
  tag_href :: string
  tag_string :: "string option"

definition find_all :: "string list \<Rightarrow> tag list \<Rightarrow> tag list" where
  "find_all tags soup = filter (\<lambda>t. tag_name t \<in> set tags) soup"

text \<open>The loop of \<open>extract_links\<close>, with its variables \<open>strict_mode\<close> and
  \<open>urls\<close>; an exception of \<open>parse_url\<close> leaves the loop.\<close>

fun extract_loop ::
  "stdlib \<Rightarrow> tag list \<Rightarrow> bool \<Rightarrow> string list \<Rightarrow> Warnings
     \<Rightarrow> (error + bool \<times> string list) \<times> Warnings" where
  "extract_loop lib [] strict_mode urls warnings = (Inr (strict_mode, urls), warnings)"
| "extract_loop lib (t # ts) strict_mode urls warnings =
     (if tag_name t = ''a'' then
        (if strict_mode then
           (case parse_url lib (tag_href t) warnings of
              (Inl e, warnings1) \<Rightarrow> (Inl e, warnings1)
            | (Inr trimmed_url, warnings1) \<Rightarrow>
                extract_loop lib ts strict_mode (urls @ [trimmed_url]) warnings1)
         else extract_loop lib ts strict_mode urls warnings)
      else extract_loop lib ts (is_strict_title (tag_string t)) urls warnings)"

definition extract_links ::
  "stdlib \<Rightarrow> tag list \<Rightarrow> Warnings \<Rightarrow> (error + string list) \<times> Warnings" where
  "extract_links lib html warnings =
     (case extract_loop lib (find_all [''a'', ''h1'', ''h2'', ''h3'', ''h4''] html) False []
             warnings of
        (Inl e, warnings1) \<Rightarrow> (Inl e, warnings1)
      | (Inr (strict_mode, urls), warnings1) \<Rightarrow> (Inr urls, warnings1))"

subsection \<open>Files\<close>

text \<open>
  The world outside the program: \<open>os.listdir\<close>, and for a file name the tags of the
  document that \<open>open(filename).read()\<close>, \<open>markdown.markdown\<close> and
  \<open>BeautifulSoup\<close> produce, or the exception raised on the way.
\<close>

record env =
  env_lib :: stdlib
  listdir :: "string \<Rightarrow> error + string list"
  read_html :: "string \<Rightarrow> error + tag list"

definition inspect_file ::
  "env \<Rightarrow> string \<Rightarrow> Warnings \<Rightarrow> (error + string list) \<times> Warnings" where
  "inspect_file ev filename warnings =
     (case read_html ev filename of
        Inl e \<Rightarrow> (Inl e, warnings)
      | Inr html \<Rightarrow> extract_links (env_lib ev) html warnings)"

text \<open>\<open>os.path.join(dir, f)\<close> for a relative \<open>f\<close>.\<close>

definition path_join :: "string \<Rightarrow> string \<Rightarrow> string" where
  "path_join dir f =
     (if take 1 f = ''/'' then f
      else if dir = [] \<or> last dir = CHR ''/'' then dir @ f
      else dir @ ''/'' @ f)"

text \<open>\<open>xs[i:]\<close>: a negative start counts from the end, and the start is clamped to
  the list.\<close>

definition slice_from :: "'a list \<Rightarrow> int \<Rightarrow> 'a list" where
  "slice_from xs i =
     (let n = int (length xs);
          start = (if i < 0 then max (n + i) 0 else min i n)
      in drop (nat start) xs)"

definition get_recent_files :: "env \<Rightarrow> string \<Rightarrow> int \<Rightarrow> error + string list" where
  "get_recent_files ev dir cnt =
     (case listdir ev dir of
        Inl e \<Rightarrow> Inl e
      | Inr listing \<Rightarrow>
          if listing = [] then Inl (Exception (''No files found in '' @ dir))
          else let listing1 = filter (re_match RE_FILENAME) listing in
            if listing1 = [] then Inl (Exception (''No matching files found in '' @ dir))
            else Inr (map (path_join dir) (slice_from (sort listing1) (- cnt))))"

subsection \<open>\<open>inspect_files\<close>, \<open>main\<close> and the script\<close>

text \<open>\<open>if collision:\<close> is true for a file name that is there and not empty.\<close>

fun links_loop ::
  "string \<Rightarrow> string list \<Rightarrow> (string \<rightharpoonup> string) \<Rightarrow> Warnings
     \<Rightarrow> (string \<rightharpoonup> string) \<times> Warnings" where
  "links_loop file [] linkset warnings = (linkset, warnings)"
| "links_loop file (link # links) linkset warnings =
     (case linkset link of
        Some collision \<Rightarrow>
          if collision \<noteq> []
          then links_loop file links linkset (warn warnings (Duplicate link file collision))
          else links_loop file links (linkset(link \<mapsto> file)) warnings
      | None \<Rightarrow> links_loop file links (linkset(link \<mapsto> file)) warnings)"

fun files_loop ::
  "env \<Rightarrow> string list \<Rightarrow> (string \<rightharpoonup> string) \<Rightarrow> Warnings
     \<Rightarrow> (error + (string \<rightharpoonup> string)) \<times> Warnings" where
  "files_loop ev [] linkset warnings = (Inr linkset, warnings)"
| "files_loop ev (file # files) linkset warnings =
     (case inspect_file ev file warnings of
        (Inl e, warnings1) \<Rightarrow> (Inl e, warnings1)
      | (Inr links, warnings1) \<Rightarrow>
          (case links_loop file links linkset warnings1 of
             (linkset1, warnings2) \<Rightarrow> files_loop ev files linkset1 warnings2))"

definition inspect_files ::
  "env \<Rightarrow> string list \<Rightarrow> Warnings \<Rightarrow> (error + unit) \<times> Warnings" where
  "inspect_files ev file_list warnings =
     (case files_loop ev file_list Map.empty warnings of
        (Inl e, warnings1) \<Rightarrow> (Inl e, warnings1)
      | (Inr linkset, warnings1) \<Rightarrow> (Inr (), warnings1))"

record args =
  arg_path :: string
  arg_num_recent :: int

definition main :: "env \<Rightarrow> args \<Rightarrow> Warnings \<Rightarrow> (error + unit) \<times> Warnings" where
  "main ev ar warnings =
     (case get_recent_files ev (arg_path ar) (arg_num_recent ar) of
        Inl e \<Rightarrow> (Inl e, warnings)
      | Inr file_list \<Rightarrow> inspect_files ev file_list warnings)"

text \<open>
  The script: \<open>main()\<close> on an empty warning list, then the report. An exception that
  leaves \<open>main\<close> is not caught: the report is not reached. Otherwise the process ends
  with an exit code and the lines it printed.
\<close>

datatype outcome =
    Uncaught error
  | Exited nat "string list"

definition script :: "env \<Rightarrow> args \<Rightarrow> outcome" where
  "script ev ar =
     (case main ev ar [] of
        (Inl e, warns) \<Rightarrow> Uncaught e
      | (Inr u, warns) \<Rightarrow>
          if warns \<noteq> [] then Exited 1 (''warnings exist:'' # map render warns)
          else Exited 0 [''everything is ok!''])"

subsection \<open>The parts of a URL\<close>

text \<open>
  Names for what \<open>urlsplit\<close> computes on the way: the text after stripping, the netloc
  and what follows it, and the check of the netloc that decides ValueError. They serve to
  state what \<open>urlsplit\<close> returns.
\<close>

definition clean :: "string \<Rightarrow> string" where
  "clean u = filter (\<lambda>c. \<not> unsafe_url_byte c) (dropWhile c0_control_or_space u)"

definition netloc_part :: "string \<Rightarrow> string" where
  "netloc_part url = (if take 2 url = ''//'' then fst (splitnetloc url) else [])"

definition after_netloc :: "string \<Rightarrow> string" where
  "after_netloc url = (if take 2 url = ''//'' then snd (splitnetloc url) else url)"

definition netloc_ok :: "stdlib \<Rightarrow> string \<Rightarrow> bool" where
  "netloc_ok lib loc =
     (\<not> ((CHR ''['' \<in> set loc \<and> CHR '']'' \<notin> set loc) \<or>
         (CHR '']'' \<in> set loc \<and> CHR ''['' \<notin> set loc))
      \<and> \<not> (CHR ''['' \<in> set loc \<and> CHR '']'' \<in> set loc \<and>
            \<not> bracketed_host_ok lib
                (fst (partition_str CHR '']'' (snd (snd (partition_str CHR ''['' loc))))))
      \<and> \<not> (loc \<noteq> [] \<and> \<not> (\<forall>c \<in> set loc. isascii c) \<and> \<not> nfkc_netloc_ok lib loc))"

text \<open>A scheme as \<open>urlsplit\<close> returns it when it finds one.\<close>

definition good_scheme :: "string \<Rightarrow> bool" where
  "good_scheme s =
     (s \<noteq> [] \<and> isascii (hd s) \<and> ascii_isalpha (hd s)
      \<and> (\<forall>c \<in> set s. c \<in> set scheme_chars) \<and> lower s = s)"

text \<open>The end of a URL after its path: nothing, a query or a fragment.\<close>

definition tail_ok :: "string \<Rightarrow> bool" where
  "tail_ok Y = (Y = [] \<or> hd Y = CHR ''?'' \<or> hd Y = CHR ''#'')"

definition url_tail :: "string \<Rightarrow> string \<Rightarrow> string" where
  "url_tail q f = (if q \<noteq> [] then CHR ''?'' # q else []) @ (if f \<noteq> [] then CHR ''#'' # f else [])"

text \<open>What holds of the scheme, netloc, path and fragment that \<open>urlsplit\<close> returns.\<close>

definition parts_ok :: "stdlib \<Rightarrow> string \<Rightarrow> string \<Rightarrow> string \<Rightarrow> string \<Rightarrow> bool" where
  "parts_ok lib s loc pth f =
     ((s = [] \<or> good_scheme s)
      \<and> (\<forall>c \<in> set loc. \<not> netloc_delim c) \<and> netloc_ok lib loc
      \<and> CHR ''?'' \<notin> set pth \<and> CHR ''#'' \<notin> set pth
      \<and> (loc \<noteq> [] \<longrightarrow> pth = [] \<or> hd pth = CHR ''/'')
      \<and> (\<forall>c \<in> set (loc @ pth @ f). \<not> unsafe_url_byte c)
      \<and> (s = [] \<and> loc = [] \<and> take 2 pth \<noteq> ''//'' \<longrightarrow>
           (\<forall>Y. tail_ok Y \<longrightarrow> split_scheme (pth @ Y) = ([], pth @ Y))
           \<and> (pth \<noteq> [] \<longrightarrow> \<not> c0_control_or_space (hd pth))))"

text \<open>The path as \<open>urlunsplit\<close> writes it: with a leading slash when a netloc part is
  written before it.\<close>

definition norm_path :: "string \<Rightarrow> string \<Rightarrow> string \<Rightarrow> string" where
  "norm_path s loc pth =
     (if (loc \<noteq> [] \<or> (s \<noteq> [] \<and> s \<in> set uses_netloc) \<or> take 2 pth = ''//'')
         \<and> pth \<noteq> [] \<and> take 1 pth \<noteq> ''/''
      then CHR ''/'' # pth else pth)"

subsection \<open>Results and warnings apart\<close>

text \<open>
  Every function that records warnings only appends to the list it is given. Its result
  and the warnings it adds are those of a run on the empty list.
\<close>

definition scrub_result :: "string \<Rightarrow> string \<Rightarrow> error + string" where
  "scrub_result url qry = fst (scrub_parameters url qry [])"

definition scrub_warnings :: "string \<Rightarrow> string \<Rightarrow> Warnings" where
  "scrub_warnings url qry = snd (scrub_parameters url qry [])"

definition parse_url_result :: "stdlib \<Rightarrow> string \<Rightarrow> error + string" where
  "parse_url_result lib link = fst (parse_url lib link [])"

definition parse_url_warnings :: "stdlib \<Rightarrow> string \<Rightarrow> Warnings" where
  "parse_url_warnings lib link = snd (parse_url lib link [])"

text \<open>The links that \<open>inspect_file\<close> returns for a file.\<close>

definition links_of :: "env \<Rightarrow> string \<Rightarrow> error + string list" where
  "links_of ev filename = fst (inspect_file ev filename [])"

fun is_duplicate :: "warning \<Rightarrow> bool" where
  "is_duplicate (Duplicate _ _ _) = True"
| "is_duplicate _ = False"

subsection \<open>Example environments\<close>

text \<open>A standard library whose two unmodelled checks accept every netloc, a directory
  with a given listing whose files hold given documents, and the default arguments.\<close>

definition lib0 :: stdlib where
  "lib0 = \<lparr>bracketed_host_ok = (\<lambda>h. True), nfkc_netloc_ok = (\<lambda>n. True)\<rparr>"

definition example_env :: "string list \<Rightarrow> (string \<Rightarrow> tag list) \<Rightarrow> env" where
  "example_env listing docs =
     \<lparr>env_lib = lib0, listdir = (\<lambda>d. Inr listing), read_html = (\<lambda>f. Inr (docs f))\<rparr>"

definition example_args :: args where
  "example_args = \<lparr>arg_path = ''content'', arg_num_recent = 5\<rparr>"

text \<open>A document with one strict section, \<open>Miscellaneous\<close>, that holds the given
  links.\<close>

definition strict_doc :: "string list \<Rightarrow> tag list" where
  "strict_doc hrefs =
     \<lparr>tag_name = ''h2'', tag_href = [], tag_string = Some ''Miscellaneous''\<rparr>
     # map (\<lambda>h. \<lparr>tag_name = ''a'', tag_href = h, tag_string = Some ''link''\<rparr>) hrefs"

section \<open>File selection and the exit contract\<close>

lemma slice_from_last: "1 \<le> n \<Longrightarrow> slice_from xs (- n) = drop (length xs - nat n) xs"
  by (simp add: slice_from_def Let_def max_def nat_diff_distrib')

lemma atom_le_match:
  "atom_le a b \<Longrightarrow>
   (case a of Digit \<Rightarrow> isdigit c | Lit l \<Rightarrow> c = l | AnyChar \<Rightarrow> ord c \<noteq> 10) \<Longrightarrow>
   (case b of Digit \<Rightarrow> isdigit c | Lit l \<Rightarrow> c = l | AnyChar \<Rightarrow> ord c \<noteq> 10)"
  by (cases b; cases a) (auto simp add: isdigit_def)

lemma full_match_re_match:
  "list_all2 atom_le p p' \<Longrightarrow> full_match p s \<Longrightarrow> re_match p' s"
proof (induction p s arbitrary: p' rule: full_match.induct)
  case 1
  then show ?case by simp
next
  case (2 c cs)
  then show ?case by simp
next
  case (3 a as)
  then show ?case by simp
next
  case (4 a as c cs)
  from "4.prems"(1) obtain b bs where p': "p' = b # bs" "atom_le a b" "list_all2 atom_le as bs"
    by (auto simp add: list_all2_Cons1)
  from "4.prems"(2) have m: "(case a of Digit \<Rightarrow> isdigit c | Lit l \<Rightarrow> c = l | AnyChar \<Rightarrow> ord c \<noteq> 10)"
    and r: "full_match as cs" by simp_all
  from "4.IH" [OF p'(3) r] atom_le_match [OF p'(2) m] p'(1) show ?case by simp
qed

lemma dated_le: "list_all2 atom_le DATED_NAME RE_FILENAME"
  by (simp add: DATED_NAME_def RE_FILENAME_def ord_def)

lemma dated_name_accepted: "dated_name f \<Longrightarrow> re_match RE_FILENAME f"
  unfolding dated_name_def by (rule full_match_re_match [OF dated_le])

text \<open>
  Claim C8, as the code has it. Take a directory in which every name that
  \<open>RE_FILENAME.match\<close> accepts is of the form \<open>YYYY-MM-DD-this-week-in-rust.md\<close>,
  and a count \<open>n\<close> of at least 1. When some name is of that form,
  \<open>get_recent_files\<close> returns the \<open>n\<close> last of the names of that form in sorted
  order (all of them when there are fewer than \<open>n\<close>), each joined with the directory.
  When none is, it raises: \<open>No files found\<close> for an empty directory,
  \<open>No matching files found\<close> otherwise.
\<close>

theorem get_recent_files_last_n:
  assumes "listdir ev dir = Inr listing"
    and "\<forall>f \<in> set listing. re_match RE_FILENAME f \<longrightarrow> dated_name f"
    and "1 \<le> n"
  shows "get_recent_files ev dir n =
           (if filter dated_name listing = []
            then Inl (Exception ((if listing = [] then ''No files found in ''
                                  else ''No matching files found in '') @ dir))
            else Inr (map (path_join dir)
                        (drop (length (filter dated_name listing) - nat n)
                           (sort (filter dated_name listing)))))"
proof -
  have "filter (re_match RE_FILENAME) listing = filter dated_name listing"
    using assms(2) dated_name_accepted by (intro filter_cong) auto
  with assms(1,3) show ?thesis
    by (simp add: get_recent_files_def slice_from_last Let_def)
qed

text \<open>The theorem at a directory of four names, three of them of the form, and
  \<open>n = 2\<close>.\<close>

theorem get_recent_files_last_n_witness:
  "get_recent_files
     (example_env [''2020-01-08-this-week-in-rust.md'', ''README.md'',
                   ''2020-01-01-this-week-in-rust.md'', ''2020-01-15-this-week-in-rust.md'']
        (\<lambda>f. []))
     ''content'' 2
   = Inr [''content/2020-01-08-this-week-in-rust.md'',
          ''content/2020-01-15-this-week-in-rust.md'']"
proof -
  let ?l = "[''2020-01-08-this-week-in-rust.md'', ''README.md'',
             ''2020-01-01-this-week-in-rust.md'', ''2020-01-15-this-week-in-rust.md'']"
  have h1: "listdir (example_env ?l (\<lambda>f. [])) ''content'' = Inr ?l"
    by (simp add: example_env_def)
  have h2: "\<forall>f \<in> set ?l. re_match RE_FILENAME f \<longrightarrow> dated_name f" by code_simp
  have h3: "(1::int) \<le> 2" by simp
  have e: "(if filter dated_name ?l = []
            then Inl (Exception ((if ?l = [] then ''No files found in ''
                                  else ''No matching files found in '') @ ''content''))
            else Inr (map (path_join ''content'')
                        (drop (length (filter dated_name ?l) - nat 2)
                           (sort (filter dated_name ?l)))))
           = Inr [''content/2020-01-08-this-week-in-rust.md'',
              ''content/2020-01-15-this-week-in-rust.md'']"
    by code_simp
  show ?thesis using get_recent_files_last_n [OF h1 h2 h3] e by simp
qed

text \<open>
  Claim C8 as stated fails. With no name of the form in the directory the function raises
  instead of returning the (zero) names; with a count of 0 the slice \<open>listing[-0:]\<close>
  is the whole list, not its 0 last names; and \<open>RE_FILENAME.match\<close> also accepts names
  that are not of the form, with text after \<open>.md\<close> or with another character in place of
  the dot, which are then returned.
\<close>

theorem get_recent_files_counterexample:
  "get_recent_files (example_env [''README.md''] (\<lambda>f. [])) ''content'' 5
     = Inl (Exception ''No matching files found in content'')
   \<and> get_recent_files (example_env [''2020-01-01-this-week-in-rust.md'',
                                     ''2020-01-08-this-week-in-rust.md''] (\<lambda>f. []))
         ''content'' 0
     = Inr [''content/2020-01-01-this-week-in-rust.md'',
            ''content/2020-01-08-this-week-in-rust.md'']
   \<and> get_recent_files (example_env [''2020-01-01-this-week-in-rust.md.bak'',
                                     ''2020-01-08-this-week-in-rustXmd''] (\<lambda>f. []))
         ''content'' 5
     = Inr [''content/2020-01-01-this-week-in-rust.md.bak'',
            ''content/2020-01-08-this-week-in-rustXmd'']
   \<and> \<not> dated_name ''2020-01-01-this-week-in-rust.md.bak''
   \<and> \<not> dated_name ''2020-01-08-this-week-in-rustXmd''"
  by code_simp

text \<open>
  Claim C9. When the directory holds no name, or no name that \<open>RE_FILENAME.match\<close>
  accepts, \<open>main\<close> ends with the exception of \<open>get_recent_files\<close> and no warning
  recorded, the script ends with that uncaught exception instead of an exit code, and no
  file was read: the run is the same whatever the files hold.
\<close>

theorem no_files_is_fatal:
  assumes "listdir ev (arg_path ar) = Inr listing"
    and "filter (re_match RE_FILENAME) listing = []"
  shows "main ev ar [] =
           (Inl (Exception ((if listing = [] then ''No files found in ''
                             else ''No matching files found in '') @ arg_path ar)), [])
         \<and> script ev ar =
             Uncaught (Exception ((if listing = [] then ''No files found in ''
                                   else ''No matching files found in '') @ arg_path ar))
         \<and> (\<forall>r. main (ev\<lparr>read_html := r\<rparr>) ar [] = main ev ar [])"
  using assms by (simp add: main_def script_def get_recent_files_def)

text \<open>The theorem at a directory that holds only \<open>README.md\<close>.\<close>

theorem no_files_is_fatal_witness:
  "main (example_env [''README.md''] (\<lambda>f. [])) example_args [] =
     (Inl (Exception ''No matching files found in content''), [])
   \<and> script (example_env [''README.md''] (\<lambda>f. [])) example_args =
       Uncaught (Exception ''No matching files found in content'')"
proof -
  have h1: "listdir (example_env [''README.md''] (\<lambda>f. [])) (arg_path example_args)
              = Inr [''README.md'']"
    by (simp add: example_env_def)
  have h2: "filter (re_match RE_FILENAME) [''README.md''] = []" by code_simp
  have p: "arg_path example_args = ''content''" by (simp add: example_args_def)
  show ?thesis using no_files_is_fatal [OF h1 h2] p by simp
qed

text \<open>
  Claim C7, as the code has it. When \<open>main\<close> returns, the script exits with code 0
  and prints the success message if no warning was recorded, and otherwise exits with
  code 1 and prints, after the line \<open>warnings exist:\<close>, every warning on a line of its
  own in the order recorded. When \<open>main\<close> raises, the report is not reached, whatever
  was recorded: the script ends with the uncaught exception. So the script exits with
  code 0 and the success message if and only if \<open>main\<close> returned and no warning was
  recorded.
\<close>

theorem exit_contract:
  "script ev ar =
     (case main ev ar [] of
        (Inl e, warns) \<Rightarrow> Uncaught e
      | (Inr u, warns) \<Rightarrow>
          if warns = [] then Exited 0 [''everything is ok!'']
          else Exited 1 (''warnings exist:'' # map render warns))
   \<and> ((script ev ar = Exited 0 [''everything is ok!''])
        = (\<exists>u. main ev ar [] = (Inr u, [])))"
  by (auto simp add: script_def split: prod.splits sum.splits)

text \<open>The theorem at two runs. Over one file whose strict section holds one \<open>ftp\<close>
  link: one warning, exit code 1. Over two files, the first as before and the second
  unreadable: the warning is recorded, \<open>main\<close> raises, and nothing is reported.\<close>

theorem exit_contract_witness:
  "script (example_env [''2020-01-01-this-week-in-rust.md'']
             (\<lambda>f. strict_doc [''ftp://example.com/file'']))
      example_args
   = Exited 1 [''warnings exist:'', ''possibly malformed link: ftp://example.com/file'']
   \<and> main \<lparr>env_lib = lib0,
            listdir = (\<lambda>d. Inr [''2020-01-01-this-week-in-rust.md'',
                                  ''2020-01-08-this-week-in-rust.md'']),
            read_html = (\<lambda>f. if f = ''content/2020-01-01-this-week-in-rust.md''
                               then Inr (strict_doc [''ftp://example.com/file''])
                               else Inl OSError)\<rparr>
        example_args []
     = (Inl OSError, [Malformed ''ftp://example.com/file''])
   \<and> script \<lparr>env_lib = lib0,
            listdir = (\<lambda>d. Inr [''2020-01-01-this-week-in-rust.md'',
                                  ''2020-01-08-this-week-in-rust.md'']),
            read_html = (\<lambda>f. if f = ''content/2020-01-01-this-week-in-rust.md''
                               then Inr (strict_doc [''ftp://example.com/file''])
                               else Inl OSError)\<rparr>
        example_args
     = Uncaught OSError"
proof -
  let ?ev = "example_env [''2020-01-01-this-week-in-rust.md'']
             (\<lambda>f. strict_doc [''ftp://example.com/file''])"
  let ?bad = "\<lparr>env_lib = lib0,
            listdir = (\<lambda>d. Inr [''2020-01-01-this-week-in-rust.md'',
                                  ''2020-01-08-this-week-in-rust.md'']),
            read_html = (\<lambda>f. if f = ''content/2020-01-01-this-week-in-rust.md''
                               then Inr (strict_doc [''ftp://example.com/file''])
                               else Inl OSError)\<rparr>"
  have h: "main ?ev example_args [] = (Inr (), [Malformed ''ftp://example.com/file''])"
    by code_simp
  have b: "main ?bad example_args [] = (Inl OSError, [Malformed ''ftp://example.com/file''])"
    by code_simp
  have 1: "script ?ev example_args
             = Exited 1 [''warnings exist:'', ''possibly malformed link: ftp://example.com/file'']"
    using exit_contract [of ?ev example_args] h by simp
  have 2: "script ?bad example_args = Uncaught OSError"
    using exit_contract [of ?bad example_args] b by simp
  from 1 b 2 show ?thesis by simp
qed

text \<open>
  Claim C7 as stated fails on a run that \<open>main\<close> leaves by an exception: in an empty
  directory no warning is recorded, and the script does not exit with code 0 and the
  success message.
\<close>

theorem exit_contract_counterexample:
  "snd (main (example_env [] (\<lambda>f. [])) example_args []) = []
   \<and> script (example_env [] (\<lambda>f. [])) example_args \<noteq> Exited 0 [''everything is ok!'']"
  by code_simp

section \<open>Warnings are only appended\<close>

lemma scrub_parameters_eq:
  "scrub_parameters url q ws = (scrub_result url q, ws @ scrub_warnings url q)"
  by (simp add: scrub_parameters_def scrub_result_def scrub_warnings_def Let_def warn_def
           split: prod.splits)

lemma scrub_warnings_no_dup: "w \<in> set (scrub_warnings url q) \<Longrightarrow> \<not> is_duplicate w"
  by (auto simp add: scrub_parameters_def scrub_warnings_def Let_def warn_def
           split: prod.splits if_splits)

lemma parse_url_eq:
  "parse_url lib l ws = (parse_url_result lib l, ws @ parse_url_warnings lib l)"
  by (simp add: parse_url_def parse_url_result_def parse_url_warnings_def
        scrub_parameters_eq warn_def Let_def split: sum.splits)

lemma parse_url_warnings_no_dup: "w \<in> set (parse_url_warnings lib l) \<Longrightarrow> \<not> is_duplicate w"
  by (auto simp add: parse_url_def parse_url_warnings_def
        scrub_parameters_eq warn_def Let_def split: sum.splits if_splits
        dest: scrub_warnings_no_dup)

lemma extract_loop_eq:
  "\<exists>added. extract_loop lib ts b urls ws = (fst (extract_loop lib ts b urls []), ws @ added)
      \<and> (\<forall>w \<in> set added. \<not> is_duplicate w)"
proof (induction ts arbitrary: b urls ws)
  case Nil
  show ?case by simp
next
  case (Cons t ts)
  show ?case
  proof (cases "tag_name t = ''a'' \<and> b")
    case False
    with Cons.IH [of _ urls ws] Cons.IH[of _ urls "[]"] show ?thesis by auto
  next
    case True
    show ?thesis
    proof (cases "parse_url_result lib (tag_href t)")
      case (Inl e)
      with True show ?thesis
        by (auto simp add: parse_url_eq dest: parse_url_warnings_no_dup)
    next
      case (Inr u)
      from Cons.IH [of b "urls @ [u]" "ws @ parse_url_warnings lib (tag_href t)"]
      obtain a1 where a1: "extract_loop lib ts b (urls @ [u]) (ws @ parse_url_warnings lib (tag_href t))
          = (fst (extract_loop lib ts b (urls @ [u]) []), (ws @ parse_url_warnings lib (tag_href t)) @ a1)"
         "\<forall>w \<in> set a1. \<not> is_duplicate w" by blast
      from Cons.IH [of b "urls @ [u]" "parse_url_warnings lib (tag_href t)"]
      obtain a2 where a2: "extract_loop lib ts b (urls @ [u]) (parse_url_warnings lib (tag_href t))
          = (fst (extract_loop lib ts b (urls @ [u]) []), (parse_url_warnings lib (tag_href t)) @ a2)"
         "\<forall>w \<in> set a2. \<not> is_duplicate w" by blast
      from True Inr a1 a2 show ?thesis
        by (auto simp add: parse_url_eq dest: parse_url_warnings_no_dup)
    qed
  qed
qed

lemma inspect_file_eq:
  "\<exists>added. inspect_file ev f ws = (links_of ev f, ws @ added)
      \<and> (\<forall>w \<in> set added. \<not> is_duplicate w)"
proof (cases "read_html ev f")
  case (Inl e)
  then show ?thesis by (simp add: inspect_file_def links_of_def)
next
  case (Inr html)
  let ?ts = "find_all [''a'', ''h1'', ''h2'', ''h3'', ''h4''] html"
  from extract_loop_eq [of "env_lib ev" ?ts False "[]" ws]
  obtain a where a: "extract_loop (env_lib ev) ?ts False [] ws
        = (fst (extract_loop (env_lib ev) ?ts False [] []), ws @ a)"
       "\<forall>w \<in> set a. \<not> is_duplicate w" by blast
  with Inr show ?thesis
    by (cases "fst (extract_loop (env_lib ev) ?ts False [] [])")
       (auto simp add: inspect_file_def links_of_def extract_links_def split: prod.splits sum.splits)
qed


lemma filter_dup_append:
  "\<forall>w \<in> set added. \<not> is_duplicate w \<Longrightarrow>
   filter (is_duplicate_of L) (ws @ added) = filter (is_duplicate_of L) ws"
proof -
  assume a: "\<forall>w \<in> set added. \<not> is_duplicate w"
  have "\<And>w. \<not> is_duplicate w \<Longrightarrow> \<not> is_duplicate_of L w"
    by (case_tac w) simp_all
  with a have "filter (is_duplicate_of L) added = []" by (auto simp add: filter_empty_conv)
  then show ?thesis by simp
qed

lemma links_loop_dups:
  assumes "file \<noteq> []" and "\<forall>l c. linkset l = Some c \<longrightarrow> c \<noteq> []"
  shows "\<exists>ls' ws'. links_loop file links linkset ws = (ls', ws')
           \<and> (\<forall>l c. ls' l = Some c \<longrightarrow> c \<noteq> [])
           \<and> ls' L = (case linkset L of Some c \<Rightarrow> Some c
                       | None \<Rightarrow> if L \<in> set links then Some file else None)
           \<and> filter (is_duplicate_of L) ws' =
               filter (is_duplicate_of L) ws @
                 (case linkset L of
                    Some c \<Rightarrow> replicate (count_list links L) (Duplicate L file c)
                  | None \<Rightarrow> replicate (count_list links L - 1) (Duplicate L file file))"
  using assms
proof (induction links arbitrary: linkset ws)
  case Nil
  then show ?case by (simp split: option.splits)
next
  case (Cons link links)
  show ?case
  proof (cases "linkset link")
    case None
    have inv: "\<forall>l c. (linkset(link \<mapsto> file)) l = Some c \<longrightarrow> c \<noteq> []"
      using Cons.prems by auto
    from Cons.IH [OF Cons.prems(1) inv, of ws]
    obtain ls' ws' where r: "links_loop file links (linkset(link \<mapsto> file)) ws = (ls', ws')"
       "\<forall>l c. ls' l = Some c \<longrightarrow> c \<noteq> []"
       "ls' L = (case (linkset(link \<mapsto> file)) L of Some c \<Rightarrow> Some c
                       | None \<Rightarrow> if L \<in> set links then Some file else None)"
       "filter (is_duplicate_of L) ws' =
               filter (is_duplicate_of L) ws @
                 (case (linkset(link \<mapsto> file)) L of
                    Some c \<Rightarrow> replicate (count_list links L) (Duplicate L file c)
                  | None \<Rightarrow> replicate (count_list links L - 1) (Duplicate L file file))"
      by blast
    show ?thesis
    proof (cases "link = L")
      case True
      with None r show ?thesis by simp
    next
      case False
      with None r show ?thesis by (simp split: option.splits)
    qed
  next
    case (Some c)
    with Cons.prems have cne: "c \<noteq> []" by blast
    from Cons.IH [OF Cons.prems, of "warn ws (Duplicate link file c)"]
    obtain ls' ws' where r:
       "links_loop file links linkset (warn ws (Duplicate link file c)) = (ls', ws')"
       "\<forall>l c. ls' l = Some c \<longrightarrow> c \<noteq> []"
       "ls' L = (case linkset L of Some c \<Rightarrow> Some c
                       | None \<Rightarrow> if L \<in> set links then Some file else None)"
       "filter (is_duplicate_of L) ws' =
               filter (is_duplicate_of L) (warn ws (Duplicate link file c)) @
                 (case linkset L of
                    Some c \<Rightarrow> replicate (count_list links L) (Duplicate L file c)
                  | None \<Rightarrow> replicate (count_list links L - 1) (Duplicate L file file))"
      by blast
    show ?thesis
    proof (cases "link = L")
      case True
      with Some cne r show ?thesis by (simp add: warn_def)
    next
      case False
      with Some cne r show ?thesis by (simp add: warn_def split: option.splits)
    qed
  qed
qed

lemma files_loop_step:
  assumes "file \<noteq> []" and "links_of ev file = Inr links"
    and "\<forall>l c. linkset l = Some c \<longrightarrow> c \<noteq> []"
  shows "\<exists>ls1 ws1. files_loop ev (file # files) linkset ws = files_loop ev files ls1 ws1
           \<and> (\<forall>l c. ls1 l = Some c \<longrightarrow> c \<noteq> [])
           \<and> ls1 L = (case linkset L of Some c \<Rightarrow> Some c
                       | None \<Rightarrow> if L \<in> set links then Some file else None)
           \<and> filter (is_duplicate_of L) ws1 =
               filter (is_duplicate_of L) ws @
                 (case linkset L of
                    Some c \<Rightarrow> replicate (count_list links L) (Duplicate L file c)
                  | None \<Rightarrow> replicate (count_list links L - 1) (Duplicate L file file))"
proof -
  from inspect_file_eq [of ev "file" ws] assms(2)
  obtain added where a: "inspect_file ev file ws = (Inr links, ws @ added)"
     "\<forall>w \<in> set added. \<not> is_duplicate w" by auto
  from links_loop_dups [OF assms(1) assms(3), of links "ws @ added" L]
  obtain ls' ws' where r: "links_loop file links linkset (ws @ added) = (ls', ws')"
     "\<forall>l c. ls' l = Some c \<longrightarrow> c \<noteq> []"
     "ls' L = (case linkset L of Some c \<Rightarrow> Some c
                       | None \<Rightarrow> if L \<in> set links then Some file else None)"
     "filter (is_duplicate_of L) ws' =
               filter (is_duplicate_of L) (ws @ added) @
                 (case linkset L of
                    Some c \<Rightarrow> replicate (count_list links L) (Duplicate L file c)
                  | None \<Rightarrow> replicate (count_list links L - 1) (Duplicate L file file))"
    by blast
  have "files_loop ev (file # files) linkset ws = files_loop ev files ls' ws'"
    using a(1) r(1) by simp
  moreover have "filter (is_duplicate_of L) (ws @ added) = filter (is_duplicate_of L) ws"
    using a(2) by (rule filter_dup_append)
  ultimately show ?thesis using r(2,3,4) by metis
qed

lemma files_loop_absent:
  assumes "\<forall>g \<in> set pre. g \<noteq> [] \<and> (\<exists>ls. links_of ev g = Inr ls \<and> L \<notin> set ls)"
    and "\<forall>l c. linkset l = Some c \<longrightarrow> c \<noteq> []"
  shows "\<exists>ls1 ws1. files_loop ev (pre @ rest) linkset ws = files_loop ev rest ls1 ws1
           \<and> (\<forall>l c. ls1 l = Some c \<longrightarrow> c \<noteq> [])
           \<and> ls1 L = linkset L
           \<and> filter (is_duplicate_of L) ws1 = filter (is_duplicate_of L) ws"
  using assms
proof (induction pre arbitrary: linkset ws)
  case Nil
  then show ?case by auto
next
  case (Cons g pre)
  from Cons.prems(1) obtain ls where g: "g \<noteq> []" "links_of ev g = Inr ls" "L \<notin> set ls"
    by auto
  from files_loop_step [OF g(1) g(2) Cons.prems(2), of "pre @ rest" ws L]
  obtain ls1 ws1 where s:
     "files_loop ev (g # pre @ rest) linkset ws = files_loop ev (pre @ rest) ls1 ws1"
     "\<forall>l c. ls1 l = Some c \<longrightarrow> c \<noteq> []"
     "ls1 L = (case linkset L of Some c \<Rightarrow> Some c
                       | None \<Rightarrow> if L \<in> set ls then Some g else None)"
     "filter (is_duplicate_of L) ws1 =
               filter (is_duplicate_of L) ws @
                 (case linkset L of
                    Some c \<Rightarrow> replicate (count_list ls L) (Duplicate L g c)
                  | None \<Rightarrow> replicate (count_list ls L - 1) (Duplicate L g g))"
    by blast
  from g(3) have c0: "count_list ls L = 0" by (simp add: count_list_0_iff)
  from s(3) g(3) have l1: "ls1 L = linkset L" by (simp split: option.splits)
  from s(4) c0 have d1: "filter (is_duplicate_of L) ws1 = filter (is_duplicate_of L) ws"
    by (simp split: option.splits)
  from Cons.prems(1) have "\<forall>g \<in> set pre. g \<noteq> [] \<and> (\<exists>ls. links_of ev g = Inr ls \<and> L \<notin> set ls)"
    by simp
  from Cons.IH [OF this s(2), of ws1]
  obtain ls2 ws2 where t: "files_loop ev (pre @ rest) ls1 ws1 = files_loop ev rest ls2 ws2"
     "\<forall>l c. ls2 l = Some c \<longrightarrow> c \<noteq> []" "ls2 L = ls1 L"
     "filter (is_duplicate_of L) ws2 = filter (is_duplicate_of L) ws1" by blast
  from s(1) t l1 d1 show ?case by (metis append_Cons)
qed

section \<open>The duplicate tracker\<close>

text \<open>
  Claim C4, as the code has it. The tracker enters a link into the mapping as soon as it
  is met, so a later occurrence in the same file collides with it. When a link occurs in
  the links of one file \<open>f\<close> only, every occurrence after the first records one
  duplicate warning, which names \<open>f\<close> both as the file and as the earlier place: for
  \<open>k\<close> occurrences, \<open>k - 1\<close> warnings.
\<close>

theorem same_file_duplicates_are_reported:
  assumes "f \<noteq> []" and "links_of ev f = Inr links"
    and "\<forall>g \<in> set pre \<union> set post.
           g \<noteq> [] \<and> (\<exists>ls. links_of ev g = Inr ls \<and> L \<notin> set ls)"
  shows "\<exists>ws. inspect_files ev (pre @ f # post) [] = (Inr (), ws)
           \<and> filter (is_duplicate_of L) ws =
               replicate (count_list links L - 1) (Duplicate L f f)"
proof -
  have e: "\<forall>l c. (Map.empty :: string \<rightharpoonup> string) l = Some c \<longrightarrow> c \<noteq> []" by simp
  from assms(3) have p: "\<forall>g \<in> set pre. g \<noteq> [] \<and> (\<exists>ls. links_of ev g = Inr ls \<and> L \<notin> set ls)"
    and q: "\<forall>g \<in> set post. g \<noteq> [] \<and> (\<exists>ls. links_of ev g = Inr ls \<and> L \<notin> set ls)"
    by auto
  from files_loop_absent [OF p e, of "f # post" "[]"]
  obtain ls1 ws1 where a:
     "files_loop ev (pre @ f # post) Map.empty [] = files_loop ev (f # post) ls1 ws1"
     "\<forall>l c. ls1 l = Some c \<longrightarrow> c \<noteq> []" "ls1 L = None"
     "filter (is_duplicate_of L) ws1 = []" by auto
  from files_loop_step [OF assms(1) assms(2) a(2), of post ws1 L] a(3) a(4)
  obtain ls2 ws2 where b:
     "files_loop ev (f # post) ls1 ws1 = files_loop ev post ls2 ws2"
     "\<forall>l c. ls2 l = Some c \<longrightarrow> c \<noteq> []"
     "filter (is_duplicate_of L) ws2 = replicate (count_list links L - 1) (Duplicate L f f)"
    by auto
  from files_loop_absent [OF q b(2), of "[]" ws2]
  obtain ls3 ws3 where c:
     "files_loop ev post ls2 ws2 = (Inr ls3, ws3)"
     "filter (is_duplicate_of L) ws3 = filter (is_duplicate_of L) ws2" by auto
  from a(1) b(1) c(1) have "inspect_files ev (pre @ f # post) [] = (Inr (), ws3)"
    by (simp add: inspect_files_def)
  with c(2) b(3) show ?thesis by simp
qed

text \<open>The theorem at two files: the first holds another link, the second holds the link
  twice.\<close>

theorem same_file_duplicates_are_reported_witness:
  "\<exists>ws. inspect_files
           (example_env []
              (\<lambda>f. if f = ''a.md'' then strict_doc [''https://example.com/other'']
                    else strict_doc [''https://example.com/a'', ''https://example.com/a'']))
           ([''a.md''] @ ''b.md'' # []) [] = (Inr (), ws)
         \<and> filter (is_duplicate_of ''https://example.com/a'') ws =
             replicate
               (count_list [''https://example.com/a'', ''https://example.com/a'']
                  ''https://example.com/a'' - 1)
               (Duplicate ''https://example.com/a'' ''b.md'' ''b.md'')"
proof -
  let ?ev = "example_env []
              (\<lambda>f. if f = ''a.md'' then strict_doc [''https://example.com/other'']
                    else strict_doc [''https://example.com/a'', ''https://example.com/a''])"
  have h1: "''b.md'' \<noteq> []" by simp
  have h2: "links_of ?ev ''b.md'' = Inr [''https://example.com/a'', ''https://example.com/a'']"
    by code_simp
  have g: "links_of ?ev ''a.md'' = Inr [''https://example.com/other'']"
    by code_simp
  have h3: "\<forall>g \<in> set [''a.md''] \<union> set [].
              g \<noteq> [] \<and> (\<exists>ls. links_of ?ev g = Inr ls \<and> ''https://example.com/a'' \<notin> set ls)"
    using g by simp
  show ?thesis by (rule same_file_duplicates_are_reported [OF h1 h2 h3])
qed

text \<open>
  Claim C4 as stated fails: one file whose strict section holds the same link twice, and
  no other file, records a duplicate warning for that link.
\<close>

theorem same_file_duplicate_counterexample:
  "inspect_files
     (example_env [] (\<lambda>f. strict_doc [''https://example.com/a'', ''https://example.com/a'']))
     [''content/2020-01-01-this-week-in-rust.md''] []
   = (Inr (), [Duplicate ''https://example.com/a'' ''content/2020-01-01-this-week-in-rust.md''
                 ''content/2020-01-01-this-week-in-rust.md''])"
  by code_simp

text \<open>
  Claim C5. A link that is extracted once from each of three files records exactly two
  duplicate warnings, for the second and the third file, and both name the first file as
  the earlier place; the mapping still holds the first file for the link: no collision
  entered or changed an entry. File names are not empty.
\<close>

theorem three_files_two_warnings:
  assumes "f1 \<noteq> []" and "f2 \<noteq> []" and "f3 \<noteq> []"
    and "links_of ev f1 = Inr l1" and "links_of ev f2 = Inr l2" and "links_of ev f3 = Inr l3"
    and "count_list l1 L = 1" and "count_list l2 L = 1" and "count_list l3 L = 1"
  shows "\<exists>linkset ws. files_loop ev [f1, f2, f3] Map.empty [] = (Inr linkset, ws)
           \<and> inspect_files ev [f1, f2, f3] [] = (Inr (), ws)
           \<and> linkset L = Some f1
           \<and> filter (is_duplicate_of L) ws = [Duplicate L f2 f1, Duplicate L f3 f1]"
proof -
  have e: "\<forall>l c. (Map.empty :: string \<rightharpoonup> string) l = Some c \<longrightarrow> c \<noteq> []" by simp
  from assms(7) have in1: "L \<in> set l1" by (metis count_list_0_iff zero_neq_one)
  from files_loop_step [OF assms(1) assms(4) e, of "[f2, f3]" "[]" L] in1 assms(7)
  obtain ls1 ws1 where a:
     "files_loop ev [f1, f2, f3] Map.empty [] = files_loop ev [f2, f3] ls1 ws1"
     "\<forall>l c. ls1 l = Some c \<longrightarrow> c \<noteq> []" "ls1 L = Some f1"
     "filter (is_duplicate_of L) ws1 = []" by auto
  from files_loop_step [OF assms(2) assms(5) a(2), of "[f3]" ws1 L] a(3) a(4) assms(8)
  obtain ls2 ws2 where b:
     "files_loop ev [f2, f3] ls1 ws1 = files_loop ev [f3] ls2 ws2"
     "\<forall>l c. ls2 l = Some c \<longrightarrow> c \<noteq> []" "ls2 L = Some f1"
     "filter (is_duplicate_of L) ws2 = [Duplicate L f2 f1]" by auto
  from files_loop_step [OF assms(3) assms(6) b(2), of "[]" ws2 L] b(3) b(4) assms(9)
  obtain ls3 ws3 where c:
     "files_loop ev [f3] ls2 ws2 = files_loop ev [] ls3 ws3"
     "ls3 L = Some f1"
     "filter (is_duplicate_of L) ws3 = [Duplicate L f2 f1, Duplicate L f3 f1]" by auto
  from a(1) b(1) c(1) have "files_loop ev [f1, f2, f3] Map.empty [] = (Inr ls3, ws3)" by simp
  with c(2,3) show ?thesis by (simp add: inspect_files_def)
qed

text \<open>The theorem at three files that hold the same link.\<close>

theorem three_files_two_warnings_witness:
  "\<exists>linkset ws.
      files_loop (example_env [] (\<lambda>f. strict_doc [''https://example.com/a'']))
        [''a.md'', ''b.md'', ''c.md''] Map.empty [] = (Inr linkset, ws)
      \<and> inspect_files (example_env [] (\<lambda>f. strict_doc [''https://example.com/a'']))
          [''a.md'', ''b.md'', ''c.md''] [] = (Inr (), ws)
      \<and> linkset ''https://example.com/a'' = Some ''a.md''
      \<and> filter (is_duplicate_of ''https://example.com/a'') ws =
          [Duplicate ''https://example.com/a'' ''b.md'' ''a.md'',
           Duplicate ''https://example.com/a'' ''c.md'' ''a.md'']"
proof -
  let ?ev = "example_env [] (\<lambda>f. strict_doc [''https://example.com/a''])"
  have n: "''a.md'' \<noteq> []" "''b.md'' \<noteq> []" "''c.md'' \<noteq> []" by simp_all
  have l: "links_of ?ev ''a.md'' = Inr [''https://example.com/a'']"
          "links_of ?ev ''b.md'' = Inr [''https://example.com/a'']"
          "links_of ?ev ''c.md'' = Inr [''https://example.com/a'']"
    by code_simp+
  have c: "count_list [''https://example.com/a''] ''https://example.com/a'' = 1" by simp
  show ?thesis
    by (rule three_files_two_warnings [OF n l c c c])
qed

section \<open>URL normalisation\<close>

text \<open>
  Claim C1. For \<open>https://example.com/a?utm_source=x&ref=y\<close>, \<open>parse_url\<close> returns
  \<open>https://example.com/a?ref=y\<close> and records exactly two warnings: the tracking
  parameters found, \<open>['utm_source']\<close>, and the simplification from the link to the
  result.
\<close>

theorem parse_url_scenario:
  "parse_url lib ''https://example.com/a?utm_source=x&ref=y'' [] =
     (Inr ''https://example.com/a?ref=y'',
      [Tracking ''https://example.com/a?utm_source=x&ref=y'' [ustr_of ''utm_source''],
       Simplify ''https://example.com/a?utm_source=x&ref=y'' ''https://example.com/a?ref=y''])
   \<and> map render (snd (parse_url lib ''https://example.com/a?utm_source=x&ref=y'' [])) =
     [''found tracking parameters on https://example.com/a?utm_source=x&ref=y: ['utm_source']'',
      ''link can be simplified: https://example.com/a?utm_source=x&ref=y -> https://example.com/a?ref=y'']"
  by code_simp

text \<open>
  Claim C6. When the query of the link is empty, \<open>parse_url\<close> returns the five
  components put together again with an empty query, and the warnings it adds are at most
  one for the scheme and one for the simplification: none for tracking parameters.
\<close>

theorem parse_url_no_query:
  assumes "urlsplit lib link = Inr p" and "query p = []"
  shows "fst (parse_url lib link ws) =
           Inr (urlunsplit (scheme p, netloc p, path p, [], fragment p))
         \<and> snd (parse_url lib link ws) =
             ws @ (if scheme p \<notin> set [''mailto'', ''http'', ''https'']
                   then [Malformed link] else [])
                @ (if urlunsplit (scheme p, netloc p, path p, [], fragment p) \<noteq> link
                   then [Simplify link (urlunsplit (scheme p, netloc p, path p, [], fragment p))]
                   else [])
         \<and> filter is_tracking (snd (parse_url lib link ws)) = filter is_tracking ws"
  using assms by (simp add: parse_url_def warn_def Let_def)

text \<open>The theorem at an \<open>ftp\<close> link with a fragment and no query.\<close>

theorem parse_url_no_query_witness:
  "fst (parse_url lib0 ''ftp://example.com/a#top'' []) = Inr ''ftp://example.com/a#top''
   \<and> snd (parse_url lib0 ''ftp://example.com/a#top'' []) = [Malformed ''ftp://example.com/a#top'']"
proof -
  have h1: "urlsplit lib0 ''ftp://example.com/a#top'' =
              Inr \<lparr>scheme = ''ftp'', netloc = ''example.com'', path = ''/a'', query = [],
                    fragment = ''top''\<rparr>"
    by code_simp
  have h2: "query \<lparr>scheme = ''ftp'', netloc = ''example.com'', path = ''/a'', query = [],
                    fragment = ''top''\<rparr> = []" by simp
  have e: "urlunsplit (''ftp'', ''example.com'', ''/a'', [], ''top'') = ''ftp://example.com/a#top''"
    by code_simp
  show ?thesis using parse_url_no_query [OF h1 h2, of "[]"] e by simp
qed

section \<open>Section state\<close>

lemma find_all_skip:
  "tag_name t \<notin> set tags \<Longrightarrow> find_all tags (xs @ t # ys) = find_all tags (xs @ ys)"
  by (simp add: find_all_def)

text \<open>
  Claim C10. A heading of level 5 or 6 is not among the tags the loop of
  \<open>extract_links\<close> sees: the loop, with its strict flag, its links and its warnings, and
  \<open>extract_links\<close> itself give the same with the heading and without it, so the links
  after it stay under the last heading of level 1 to 4.
\<close>

theorem h5_h6_leave_strict_mode:
  assumes "tag_name t = ''h5'' \<or> tag_name t = ''h6''"
  shows "extract_loop lib (find_all [''a'', ''h1'', ''h2'', ''h3'', ''h4''] (xs @ t # ys))
           strict_mode urls ws
         = extract_loop lib (find_all [''a'', ''h1'', ''h2'', ''h3'', ''h4''] (xs @ ys))
             strict_mode urls ws
         \<and> extract_links lib (xs @ t # ys) ws = extract_links lib (xs @ ys) ws"
proof -
  from assms have "tag_name t \<notin> set [''a'', ''h1'', ''h2'', ''h3'', ''h4'']" by auto
  then have "find_all [''a'', ''h1'', ''h2'', ''h3'', ''h4''] (xs @ t # ys)
             = find_all [''a'', ''h1'', ''h2'', ''h3'', ''h4''] (xs @ ys)"
    by (rule find_all_skip)
  then show ?thesis by (simp add: extract_links_def)
qed

text \<open>The theorem at a strict section with an \<open>h5\<close> heading before its link: the
  link is extracted all the same.\<close>

theorem h5_h6_leave_strict_mode_witness:
  "extract_links lib0
     (strict_doc [] @ \<lparr>tag_name = ''h5'', tag_href = [], tag_string = Some ''Crate of the Week''\<rparr>
        # [\<lparr>tag_name = ''a'', tag_href = ''https://example.com/a'', tag_string = Some ''a''\<rparr>])
     []
   = (Inr [''https://example.com/a''], [])"
proof -
  let ?t = "\<lparr>tag_name = ''h5'', tag_href = [], tag_string = Some ''Crate of the Week''\<rparr>"
  let ?ys = "[\<lparr>tag_name = ''a'', tag_href = ''https://example.com/a'', tag_string = Some ''a''\<rparr>]"
  have h: "tag_name ?t = ''h5'' \<or> tag_name ?t = ''h6''" by simp
  have e: "extract_links lib0 (strict_doc [] @ ?ys) [] = (Inr [''https://example.com/a''], [])"
    by code_simp
  show ?thesis
    using h5_h6_leave_strict_mode [OF h, of lib0 "strict_doc []" ?ys False "[]" "[]"] e
    by simp
qed

text \<open>After a run of the loop the strict flag is the verdict on the last tag seen that is
  not a link, or the starting flag when there is none.\<close>

lemma extract_loop_flag:
  "extract_loop lib ts b urls ws = (Inr (b', urls'), ws') \<Longrightarrow>
   b' = (case filter (\<lambda>t. tag_name t \<noteq> ''a'') ts of
           [] \<Rightarrow> b | h # hs \<Rightarrow> is_strict_title (tag_string (last (h # hs))))"
proof (induction ts arbitrary: b urls ws)
  case Nil
  then show ?case by simp
next
  case (Cons t ts)
  show ?case
  proof (cases "tag_name t = ''a''")
    case True
    with Cons.prems Cons.IH show ?thesis
      by (auto split: if_splits prod.splits sum.splits)
  next
    case False
    with Cons.prems have "extract_loop lib ts (is_strict_title (tag_string t)) urls ws
                            = (Inr (b', urls'), ws')" by simp
    from Cons.IH [OF this] False show ?thesis
      by (auto split: list.splits)
  qed
qed

section \<open>What \<open>urlsplit\<close> returns, and parsing a URL put together again\<close>

lemma ord_lt: "ord c < 256" by (simp add: ord_def)

lemma ord_chr: "ord (chr n) = n mod 256" by (simp add: ord_def chr_def)

lemma char_eq_ord: "(c = d) = (ord c = ord d)" by (simp add: ord_def)

lemma scheme_chars_iff: "c \<in> set scheme_chars \<longleftrightarrow>
   (97 \<le> ord c \<and> ord c \<le> 122) \<or> (65 \<le> ord c \<and> ord c \<le> 90) \<or> (48 \<le> ord c \<and> ord c \<le> 57)
   \<or> ord c = 43 \<or> ord c = 45 \<or> ord c = 46"
  apply (simp add: scheme_chars_def char_eq_ord[of c])
  apply (simp add: ord_def)
  apply arith
  done

lemma ord_lower_char:
  "ord (lower_char c) =
     (if (65 \<le> ord c \<and> ord c \<le> 90) \<or> (192 \<le> ord c \<and> ord c \<le> 222 \<and> ord c \<noteq> 215)
      then ord c + 32 else ord c)"
  by (auto simp add: lower_char_def ord_chr)

lemma ord_colon: "ord CHR '':'' = 58" by (simp add: ord_def)

lemma ord_slash: "ord CHR ''/'' = 47" by (simp add: ord_def)

lemma ord_qmark: "ord CHR ''?'' = 63" by (simp add: ord_def)

lemma ord_hash: "ord CHR ''#'' = 35" by (simp add: ord_def)

lemma scheme_char_lower: "c \<in> set scheme_chars \<Longrightarrow> lower_char c \<in> set scheme_chars"
  by (auto simp add: scheme_chars_iff ord_lower_char)

lemma scheme_char_lower_idem:
  "c \<in> set scheme_chars \<Longrightarrow> lower_char (lower_char c) = lower_char c"
  by (auto simp add: scheme_chars_iff ord_lower_char char_eq_ord [of "lower_char (lower_char c)"])

lemma scheme_char_plain:
  "c \<in> set scheme_chars \<Longrightarrow>
     c \<noteq> CHR '':'' \<and> \<not> unsafe_url_byte c \<and> c \<noteq> CHR ''?'' \<and> c \<noteq> CHR ''#''"
  by (auto simp add: scheme_chars_iff unsafe_url_byte_def char_eq_ord [of c]
        ord_colon ord_qmark ord_hash)

lemma alpha_lower:
  "ascii_isalpha c \<Longrightarrow>
     ascii_isalpha (lower_char c) \<and> isascii (lower_char c) \<and> \<not> c0_control_or_space (lower_char c)"
  by (auto simp add: ascii_isalpha_def isascii_def c0_control_or_space_def ord_lower_char)

lemma alpha_not_c0: "ascii_isalpha c \<Longrightarrow> \<not> c0_control_or_space c \<and> c \<noteq> CHR ''/''"
  by (auto simp add: ascii_isalpha_def c0_control_or_space_def ord_slash char_eq_ord [of c])

lemma unsafe_is_c0: "unsafe_url_byte c \<Longrightarrow> c0_control_or_space c"
  by (auto simp add: unsafe_url_byte_def c0_control_or_space_def)

lemma delims_plain:
  "\<not> unsafe_url_byte CHR ''/''" "\<not> unsafe_url_byte CHR ''?''" "\<not> unsafe_url_byte CHR ''#''"
  "\<not> unsafe_url_byte CHR '':''"
  "\<not> c0_control_or_space CHR ''/''" "\<not> c0_control_or_space CHR ''?''"
  "\<not> c0_control_or_space CHR ''#''"
  "\<not> ascii_isalpha CHR ''/''" "\<not> ascii_isalpha CHR ''?''" "\<not> ascii_isalpha CHR ''#''"
  "CHR ''?'' \<notin> set scheme_chars" "CHR ''#'' \<notin> set scheme_chars"
  by (simp_all add: unsafe_url_byte_def c0_control_or_space_def ascii_isalpha_def
        scheme_chars_iff ord_slash ord_qmark ord_hash ord_colon)

lemma takeWhile_stop:
  "\<forall>x \<in> set xs. P x \<Longrightarrow> \<not> P y \<Longrightarrow> takeWhile P (xs @ y # ys) = xs"
  by (induction xs) auto

lemma dropWhile_stop:
  "\<forall>x \<in> set xs. P x \<Longrightarrow> \<not> P y \<Longrightarrow> dropWhile P (xs @ y # ys) = y # ys"
  by (induction xs) auto

lemma good_scheme_facts:
  assumes "good_scheme s"
  shows "s \<noteq> []" and "isascii (hd s)" and "ascii_isalpha (hd s)"
    and "\<forall>c \<in> set s. c \<in> set scheme_chars" and "lower s = s"
    and "\<forall>c \<in> set s. c \<noteq> CHR '':''" and "\<forall>c \<in> set s. \<not> unsafe_url_byte c"
    and "\<not> c0_control_or_space (hd s)"
  using assms by (auto simp add: good_scheme_def scheme_char_plain alpha_not_c0)

lemma split_scheme_good:
  assumes "good_scheme s"
  shows "split_scheme (s @ CHR '':'' # rest) = (s, rest)"
proof -
  note g = good_scheme_facts [OF assms]
  have t: "takeWhile (\<lambda>c. c \<noteq> CHR '':'') (s @ CHR '':'' # rest) = s"
    using g(6) by (intro takeWhile_stop) auto
  have h: "hd (s @ CHR '':'' # rest) = hd s" using g(1) by simp
  show ?thesis
    using g(1-5) by (simp add: split_scheme_def t h Let_def)
qed

lemma split_scheme_cases:
  assumes "split_scheme u = (s, r)"
  shows "(s = [] \<and> r = u) \<or> (good_scheme s \<and> set r \<subseteq> set u)"
proof (cases "CHR '':'' \<in> set u \<and> takeWhile (\<lambda>c. c \<noteq> CHR '':'') u \<noteq> [] \<and> isascii (hd u)
               \<and> ascii_isalpha (hd u)
               \<and> (\<forall>c \<in> set (takeWhile (\<lambda>c. c \<noteq> CHR '':'') u). c \<in> set scheme_chars)")
  case False
  with assms show ?thesis by (auto simp add: split_scheme_def Let_def)
next
  case True
  let ?pre = "takeWhile (\<lambda>c. c \<noteq> CHR '':'') u"
  from True assms have s: "s = lower ?pre" and r: "r = drop (length ?pre + 1) u"
    by (auto simp add: split_scheme_def Let_def)
  from True have ne: "?pre \<noteq> []" by simp
  then have hd: "hd ?pre = hd u" by (cases u) (auto split: if_splits)
  have "good_scheme s"
    unfolding good_scheme_def s lower_def
    using True ne hd
    by (auto simp add: hd_map alpha_lower scheme_char_lower scheme_char_lower_idem)
  moreover have "set r \<subseteq> set u" unfolding r by (rule set_drop_subset)
  ultimately show ?thesis by simp
qed

lemma split_scheme_none_iff:
  "split_scheme u = ([], u) \<longleftrightarrow>
     \<not> (CHR '':'' \<in> set u \<and> takeWhile (\<lambda>c. c \<noteq> CHR '':'') u \<noteq> [] \<and> isascii (hd u)
         \<and> ascii_isalpha (hd u)
         \<and> (\<forall>c \<in> set (takeWhile (\<lambda>c. c \<noteq> CHR '':'') u). c \<in> set scheme_chars))"
  by (auto simp add: split_scheme_def Let_def lower_def)

lemma split_scheme_none_stable:
  assumes "split_scheme (p @ X) = ([], p @ X)"
    and "Y = [] \<or> hd Y = CHR ''?'' \<or> hd Y = CHR ''#''"
  shows "split_scheme (p @ Y) = ([], p @ Y)"
proof (rule ccontr)
  assume "split_scheme (p @ Y) \<noteq> ([], p @ Y)"
  then have d: "CHR '':'' \<in> set (p @ Y)"
      "takeWhile (\<lambda>c. c \<noteq> CHR '':'') (p @ Y) \<noteq> []" "isascii (hd (p @ Y))"
      "ascii_isalpha (hd (p @ Y))"
      "\<forall>c \<in> set (takeWhile (\<lambda>c. c \<noteq> CHR '':'') (p @ Y)). c \<in> set scheme_chars"
    unfolding split_scheme_none_iff by blast+
  show False
  proof (cases "CHR '':'' \<in> set p")
    case True
    then have ne: "p \<noteq> []" by auto
    from True have t: "\<And>Z. takeWhile (\<lambda>c. c \<noteq> CHR '':'') (p @ Z) = takeWhile (\<lambda>c. c \<noteq> CHR '':'') p"
      by (simp add: takeWhile_append1 [where P="\<lambda>c. c \<noteq> CHR '':''"] split_list_first)
    from ne have h: "\<And>Z. hd (p @ Z) = hd p" by simp
    from d True have "\<not> split_scheme (p @ X) = ([], p @ X)"
      unfolding split_scheme_none_iff t h by auto
    with assms(1) show False by simp
  next
    case False
    with d(1) have cy: "CHR '':'' \<in> set Y" by auto
    then obtain y ys where Y: "Y = y # ys" by (cases Y) auto
    with assms(2) have y: "y = CHR ''?'' \<or> y = CHR ''#''" by auto
    from False have "takeWhile (\<lambda>c. c \<noteq> CHR '':'') (p @ Y) = p @ takeWhile (\<lambda>c. c \<noteq> CHR '':'') Y"
      by (intro takeWhile_append2) auto
    with Y y have "y \<in> set (takeWhile (\<lambda>c. c \<noteq> CHR '':'') (p @ Y))" by auto
    with d(5) have "y \<in> set scheme_chars" by blast
    with y show False using delims_plain by auto
  qed
qed

lemma netloc_ok_Nil: "netloc_ok lib []"
  by (simp add: netloc_ok_def)

lemma takeWhile_all: "c \<notin> set xs \<Longrightarrow> takeWhile (\<lambda>x. x \<noteq> c) xs = xs"
  by (induction xs) auto

lemma dropWhile_all: "c \<notin> set xs \<Longrightarrow> dropWhile (\<lambda>x. x \<noteq> c) xs = []"
  by (induction xs) auto

lemma urlsplit_eq:
  assumes ss: "split_scheme (filter (\<lambda>c. \<not> unsafe_url_byte c) (dropWhile c0_control_or_space u))
                 = (s, url2)"
  shows "urlsplit lib u =
           (if netloc_ok lib (netloc_part url2)
            then Inr \<lparr>scheme = s, netloc = netloc_part url2,
                      path = takeWhile (\<lambda>c. c \<noteq> CHR ''?'')
                               (takeWhile (\<lambda>c. c \<noteq> CHR ''#'') (after_netloc url2)),
                      query = drop 1 (dropWhile (\<lambda>c. c \<noteq> CHR ''?'')
                               (takeWhile (\<lambda>c. c \<noteq> CHR ''#'') (after_netloc url2))),
                      fragment = drop 1 (dropWhile (\<lambda>c. c \<noteq> CHR ''#'') (after_netloc url2))\<rparr>
            else Inl ValueError)"
proof (cases "take 2 url2 = ''//''")
  case True
  show ?thesis
    unfolding urlsplit_def Let_def ss prod.case
    using True
    by (auto simp add: netloc_part_def after_netloc_def netloc_ok_def splitnetloc_def
          takeWhile_all dropWhile_all)
next
  case False
  show ?thesis
    unfolding urlsplit_def Let_def ss prod.case
    using False
    by (auto simp add: netloc_part_def after_netloc_def netloc_ok_Nil
          takeWhile_all dropWhile_all)
qed

lemma clean_safe: "\<forall>c \<in> set (clean u). \<not> unsafe_url_byte c"
  by (simp add: clean_def)

lemma dropWhile_hd: "dropWhile P xs = y # ys \<Longrightarrow> \<not> P y"
  by (induction xs) (auto split: if_splits)

lemma clean_hd: "clean u = [] \<or> \<not> c0_control_or_space (hd (clean u))"
proof (cases "dropWhile c0_control_or_space u")
  case Nil
  show ?thesis unfolding clean_def Nil by simp
next
  case (Cons x xs)
  then have a: "\<not> c0_control_or_space x" by (rule dropWhile_hd)
  then have b: "\<not> unsafe_url_byte x" using unsafe_is_c0 by blast
  show ?thesis unfolding clean_def Cons using a b by simp
qed

lemma clean_id:
  assumes "\<forall>c \<in> set v. \<not> unsafe_url_byte c" and "v = [] \<or> \<not> c0_control_or_space (hd v)"
  shows "clean v = v"
proof -
  from assms(2) have "dropWhile c0_control_or_space v = v" by (cases v) auto
  with assms(1) show ?thesis by (simp add: clean_def)
qed

lemma urlsplit_Inr:
  assumes "urlsplit lib u = Inr p"
  obtains s url2 where "split_scheme (clean u) = (s, url2)"
    and "netloc_ok lib (netloc_part url2)"
    and "p = \<lparr>scheme = s, netloc = netloc_part url2,
                      path = takeWhile (\<lambda>c. c \<noteq> CHR ''?'')
                               (takeWhile (\<lambda>c. c \<noteq> CHR ''#'') (after_netloc url2)),
                      query = drop 1 (dropWhile (\<lambda>c. c \<noteq> CHR ''?'')
                               (takeWhile (\<lambda>c. c \<noteq> CHR ''#'') (after_netloc url2))),
                      fragment = drop 1 (dropWhile (\<lambda>c. c \<noteq> CHR ''#'') (after_netloc url2))\<rparr>"
proof -
  obtain s url2 where ss: "split_scheme (clean u) = (s, url2)" by (cases "split_scheme (clean u)")
  from assms urlsplit_eq [OF ss [unfolded clean_def], of lib]
  have "netloc_ok lib (netloc_part url2)" and "p = \<lparr>scheme = s, netloc = netloc_part url2,
                      path = takeWhile (\<lambda>c. c \<noteq> CHR ''?'')
                               (takeWhile (\<lambda>c. c \<noteq> CHR ''#'') (after_netloc url2)),
                      query = drop 1 (dropWhile (\<lambda>c. c \<noteq> CHR ''?'')
                               (takeWhile (\<lambda>c. c \<noteq> CHR ''#'') (after_netloc url2))),
                      fragment = drop 1 (dropWhile (\<lambda>c. c \<noteq> CHR ''#'') (after_netloc url2))\<rparr>"
    by (auto split: if_splits)
  with ss that show thesis by blast
qed

lemma netloc_part_nodelim: "\<forall>c \<in> set (netloc_part url). \<not> netloc_delim c"
proof
  fix c assume "c \<in> set (netloc_part url)"
  then have "c \<in> set (takeWhile (\<lambda>c. \<not> netloc_delim c) (drop 2 url))"
    by (simp add: netloc_part_def splitnetloc_def split: if_splits)
  then show "\<not> netloc_delim c" by (rule set_takeWhileD [THEN conjunct2])
qed

lemma netloc_part_subset: "set (netloc_part url) \<subseteq> set url"
proof
  fix c assume "c \<in> set (netloc_part url)"
  then have "c \<in> set (takeWhile (\<lambda>c. \<not> netloc_delim c) (drop 2 url))"
    by (simp add: netloc_part_def splitnetloc_def split: if_splits)
  then have "c \<in> set (drop 2 url)" by (rule set_takeWhileD [THEN conjunct1])
  then show "c \<in> set url" by (rule in_set_dropD)
qed

lemma after_netloc_subset: "set (after_netloc url) \<subseteq> set url"
proof
  fix c assume a: "c \<in> set (after_netloc url)"
  show "c \<in> set url"
  proof (cases "take 2 url = ''//''")
    case True
    with a have "c \<in> set (dropWhile (\<lambda>c. \<not> netloc_delim c) (drop 2 url))"
      by (simp add: after_netloc_def splitnetloc_def)
    then have "c \<in> set (drop 2 url)" by (rule set_dropWhileD)
    then show ?thesis by (rule in_set_dropD)
  next
    case False
    with a show ?thesis by (simp add: after_netloc_def)
  qed
qed

lemma after_netloc_hd:
  assumes "take 2 url = ''//''"
  shows "after_netloc url = [] \<or> netloc_delim (hd (after_netloc url))"
proof (cases "dropWhile (\<lambda>c. \<not> netloc_delim c) (drop 2 url)")
  case Nil
  with assms show ?thesis unfolding after_netloc_def splitnetloc_def by simp
next
  case (Cons y ys)
  then have "\<not> \<not> netloc_delim y" by (rule dropWhile_hd)
  with assms Cons show ?thesis unfolding after_netloc_def splitnetloc_def by simp
qed

lemma no_netloc: "take 2 url \<noteq> ''//'' \<Longrightarrow> netloc_part url = [] \<and> after_netloc url = url"
  by (simp add: netloc_part_def after_netloc_def)

lemma path_no_q: "CHR ''?'' \<notin> set (takeWhile (\<lambda>c. c \<noteq> CHR ''?'') xs)"
  using set_takeWhileD [of "CHR ''?''" "\<lambda>c. c \<noteq> CHR ''?''" xs] by blast

lemma path_no_h:
  "CHR ''#'' \<notin> set (takeWhile (\<lambda>c. c \<noteq> CHR ''?'') (takeWhile (\<lambda>c. c \<noteq> CHR ''#'') R))"
proof
  assume "CHR ''#'' \<in> set (takeWhile (\<lambda>c. c \<noteq> CHR ''?'') (takeWhile (\<lambda>c. c \<noteq> CHR ''#'') R))"
  then have "CHR ''#'' \<in> set (takeWhile (\<lambda>c. c \<noteq> CHR ''#'') R)"
    by (rule set_takeWhileD [THEN conjunct1])
  then have "CHR ''#'' \<noteq> CHR ''#''" by (rule set_takeWhileD [THEN conjunct2])
  then show False by simp
qed

lemma path_subset:
  "set (takeWhile (\<lambda>c. c \<noteq> CHR ''?'') (takeWhile (\<lambda>c. c \<noteq> CHR ''#'') R)) \<subseteq> set R"
proof
  fix c assume "c \<in> set (takeWhile (\<lambda>c. c \<noteq> CHR ''?'') (takeWhile (\<lambda>c. c \<noteq> CHR ''#'') R))"
  then have "c \<in> set (takeWhile (\<lambda>c. c \<noteq> CHR ''#'') R)"
    by (rule set_takeWhileD [THEN conjunct1])
  then show "c \<in> set R" by (rule set_takeWhileD [THEN conjunct1])
qed

lemma fragment_subset: "set (drop 1 (dropWhile P R)) \<subseteq> set R"
proof
  fix c assume "c \<in> set (drop 1 (dropWhile P R))"
  then have "c \<in> set (dropWhile P R)" by (rule in_set_dropD)
  then show "c \<in> set R" by (rule set_dropWhileD)
qed

lemma path_tail:
  "\<exists>X. R = takeWhile (\<lambda>c. c \<noteq> CHR ''?'') (takeWhile (\<lambda>c. c \<noteq> CHR ''#'') R) @ X \<and> tail_ok X"
proof -
  define A where "A = takeWhile (\<lambda>c. c \<noteq> CHR ''#'') R"
  define B where "B = dropWhile (\<lambda>c. c \<noteq> CHR ''#'') R"
  define P where "P = takeWhile (\<lambda>c. c \<noteq> CHR ''?'') A"
  define Q where "Q = dropWhile (\<lambda>c. c \<noteq> CHR ''?'') A"
  have r1: "R = A @ B" by (simp add: A_def B_def)
  have r2: "A = P @ Q" by (simp add: P_def Q_def)
  have r: "R = P @ (Q @ B)" using r1 r2 by simp
  have "tail_ok (Q @ B)"
  proof (cases Q)
    case Nil
    note qn = Nil
    show ?thesis
    proof (cases B)
      case Nil
      with qn show ?thesis by (simp add: tail_ok_def)
    next
      case (Cons y ys)
      then have "\<not> y \<noteq> CHR ''#''" unfolding B_def by (rule dropWhile_hd)
      with Cons qn show ?thesis by (simp add: tail_ok_def)
    qed
  next
    case (Cons y ys)
    then have "\<not> y \<noteq> CHR ''?''" unfolding Q_def by (rule dropWhile_hd)
    with Cons show ?thesis by (simp add: tail_ok_def)
  qed
  with r show ?thesis unfolding P_def A_def by blast
qed

lemma split_scheme_nonalpha:
  "u = [] \<or> \<not> ascii_isalpha (hd u) \<Longrightarrow> split_scheme u = ([], u)"
  unfolding split_scheme_none_iff by auto

lemma path_hd:
  assumes "R = [] \<or> netloc_delim (hd R)"
  shows "takeWhile (\<lambda>c. c \<noteq> CHR ''?'') (takeWhile (\<lambda>c. c \<noteq> CHR ''#'') R) = []
         \<or> hd (takeWhile (\<lambda>c. c \<noteq> CHR ''?'') (takeWhile (\<lambda>c. c \<noteq> CHR ''#'') R)) = CHR ''/''"
proof (cases R)
  case Nil
  then show ?thesis by simp
next
  case (Cons y ys)
  with assms have "y = CHR ''/'' \<or> y = CHR ''?'' \<or> y = CHR ''#''"
    by (simp add: netloc_delim_def)
  with Cons show ?thesis by auto
qed

lemma tail_hd_plain:
  assumes "tail_ok Y" and "pth = [] \<or> hd pth = CHR ''/''"
  shows "pth @ Y = [] \<or> \<not> ascii_isalpha (hd (pth @ Y))"
  using assms delims_plain by (cases pth; cases Y) (auto simp add: tail_ok_def)

lemma urlsplit_parts_ok:
  assumes "urlsplit lib u = Inr p"
  shows "parts_ok lib (scheme p) (netloc p) (path p) (fragment p)"
proof -
  from assms obtain s url2 where ss: "split_scheme (clean u) = (s, url2)"
    and nok: "netloc_ok lib (netloc_part url2)"
    and p: "p = \<lparr>scheme = s, netloc = netloc_part url2,
                      path = takeWhile (\<lambda>c. c \<noteq> CHR ''?'')
                               (takeWhile (\<lambda>c. c \<noteq> CHR ''#'') (after_netloc url2)),
                      query = drop 1 (dropWhile (\<lambda>c. c \<noteq> CHR ''?'')
                               (takeWhile (\<lambda>c. c \<noteq> CHR ''#'') (after_netloc url2))),
                      fragment = drop 1 (dropWhile (\<lambda>c. c \<noteq> CHR ''#'') (after_netloc url2))\<rparr>"
    by (rule urlsplit_Inr)
  define R where "R = after_netloc url2"
  define pth where "pth = takeWhile (\<lambda>c. c \<noteq> CHR ''?'') (takeWhile (\<lambda>c. c \<noteq> CHR ''#'') R)"
  define f where "f = drop 1 (dropWhile (\<lambda>c. c \<noteq> CHR ''#'') R)"
  define loc where "loc = netloc_part url2"
  have sel: "scheme p = s" "netloc p = loc" "path p = pth" "fragment p = f"
    by (simp_all add: p R_def pth_def f_def loc_def)
  from split_scheme_cases [OF ss]
  have sc: "(s = [] \<and> url2 = clean u) \<or> (good_scheme s \<and> set url2 \<subseteq> set (clean u))" .
  then have sub: "set url2 \<subseteq> set (clean u)" by auto
  have safe2: "\<forall>c \<in> set url2. \<not> unsafe_url_byte c" using sub clean_safe by blast
  have Rsub: "set R \<subseteq> set url2" unfolding R_def by (rule after_netloc_subset)
  have c1: "s = [] \<or> good_scheme s" using sc by auto
  have c2: "\<forall>c \<in> set loc. \<not> netloc_delim c" unfolding loc_def by (rule netloc_part_nodelim)
  have c3: "netloc_ok lib loc" unfolding loc_def by (rule nok)
  have c4: "CHR ''?'' \<notin> set pth" unfolding pth_def by (rule path_no_q)
  have c5: "CHR ''#'' \<notin> set pth" unfolding pth_def by (rule path_no_h)
  have hn: "take 2 url2 = ''//'' \<Longrightarrow> pth = [] \<or> hd pth = CHR ''/''"
    unfolding pth_def R_def by (rule path_hd) (rule after_netloc_hd)
  have c6: "loc \<noteq> [] \<longrightarrow> pth = [] \<or> hd pth = CHR ''/''"
  proof
    assume "loc \<noteq> []"
    then have "take 2 url2 = ''//''" unfolding loc_def using no_netloc by blast
    then show "pth = [] \<or> hd pth = CHR ''/''" by (rule hn)
  qed
  have s1: "set loc \<subseteq> set url2" unfolding loc_def by (rule netloc_part_subset)
  have s2: "set pth \<subseteq> set R" unfolding pth_def by (rule path_subset)
  have s3: "set f \<subseteq> set R" unfolding f_def by (rule fragment_subset)
  have c7: "\<forall>c \<in> set (loc @ pth @ f). \<not> unsafe_url_byte c"
    using s1 s2 s3 Rsub safe2 by auto
  have c8: "s = [] \<and> loc = [] \<and> take 2 pth \<noteq> ''//'' \<longrightarrow>
           (\<forall>Y. tail_ok Y \<longrightarrow> split_scheme (pth @ Y) = ([], pth @ Y))
           \<and> (pth \<noteq> [] \<longrightarrow> \<not> c0_control_or_space (hd pth))"
  proof (intro impI, elim conjE)
    assume s0: "s = []"
    show "(\<forall>Y. tail_ok Y \<longrightarrow> split_scheme (pth @ Y) = ([], pth @ Y))
           \<and> (pth \<noteq> [] \<longrightarrow> \<not> c0_control_or_space (hd pth))"
    proof (cases "take 2 url2 = ''//''")
      case True
      then have h: "pth = [] \<or> hd pth = CHR ''/''" by (rule hn)
      have a: "\<forall>Y. tail_ok Y \<longrightarrow> split_scheme (pth @ Y) = ([], pth @ Y)"
      proof (intro allI impI)
        fix Y assume "tail_ok Y"
        then have "pth @ Y = [] \<or> \<not> ascii_isalpha (hd (pth @ Y))" using h by (rule tail_hd_plain)
        then show "split_scheme (pth @ Y) = ([], pth @ Y)" by (rule split_scheme_nonalpha)
      qed
      have b: "pth \<noteq> [] \<longrightarrow> \<not> c0_control_or_space (hd pth)"
        using h delims_plain by auto
      from a b show ?thesis by simp
    next
      case False
      then have Ru: "R = url2" unfolding R_def using no_netloc by blast
      from s0 sc have u2: "url2 = clean u" by (auto simp add: good_scheme_def)
      from path_tail [of R] obtain X where X: "R = pth @ X" "tail_ok X"
        unfolding pth_def by blast
      from ss s0 u2 Ru X(1) have n: "split_scheme (pth @ X) = ([], pth @ X)" by simp
      have a: "\<forall>Y. tail_ok Y \<longrightarrow> split_scheme (pth @ Y) = ([], pth @ Y)"
      proof (intro allI impI)
        fix Y assume "tail_ok Y"
        then have "Y = [] \<or> hd Y = CHR ''?'' \<or> hd Y = CHR ''#''" by (simp add: tail_ok_def)
        with n show "split_scheme (pth @ Y) = ([], pth @ Y)" by (rule split_scheme_none_stable)
      qed
      have b: "pth \<noteq> [] \<longrightarrow> \<not> c0_control_or_space (hd pth)"
      proof
        assume ne: "pth \<noteq> []"
        then have "hd pth = hd (clean u)" using X(1) Ru u2 by (metis hd_append2)
        moreover have "clean u \<noteq> []" using ne X(1) Ru u2 by auto
        ultimately show "\<not> c0_control_or_space (hd pth)" using clean_hd [of u] by auto
      qed
      from a b show ?thesis by simp
    qed
  qed
  show ?thesis
    unfolding parts_ok_def sel
    using c1 c2 c3 c4 c5 c6 c7 c8 by blast
qed

lemma tail_ok_url_tail: "tail_ok (url_tail q f)"
  by (simp add: tail_ok_def url_tail_def)

lemma urlunsplit_eq:
  "urlunsplit (s, loc, pth, q, f) =
     (if s \<noteq> [] then s @ [CHR '':''] else [])
     @ (if loc \<noteq> [] \<or> (s \<noteq> [] \<and> s \<in> set uses_netloc) \<or> take 2 pth = ''//''
        then ''//'' @ loc @ norm_path s loc pth else pth)
     @ url_tail q f"
  by (simp add: urlunsplit_def norm_path_def url_tail_def Let_def)

lemma split_tail:
  assumes "CHR ''?'' \<notin> set P" and "CHR ''#'' \<notin> set P" and "CHR ''#'' \<notin> set q"
  shows "takeWhile (\<lambda>c. c \<noteq> CHR ''?'') (takeWhile (\<lambda>c. c \<noteq> CHR ''#'') (P @ url_tail q f)) = P"
    and "drop 1 (dropWhile (\<lambda>c. c \<noteq> CHR ''?'')
           (takeWhile (\<lambda>c. c \<noteq> CHR ''#'') (P @ url_tail q f))) = q"
    and "drop 1 (dropWhile (\<lambda>c. c \<noteq> CHR ''#'') (P @ url_tail q f)) = f"
proof -
  define Q where "Q = (if q \<noteq> [] then CHR ''?'' # q else [])"
  have nh: "CHR ''#'' \<notin> set (P @ Q)" using assms by (simp add: Q_def)
  have a: "takeWhile (\<lambda>c. c \<noteq> CHR ''#'') (P @ url_tail q f) = P @ Q"
  proof (cases "f = []")
    case True
    then have "P @ url_tail q f = P @ Q" by (simp add: url_tail_def Q_def)
    with nh show ?thesis by (simp add: takeWhile_all)
  next
    case False
    then have e: "P @ url_tail q f = (P @ Q) @ CHR ''#'' # f" by (simp add: url_tail_def Q_def)
    show ?thesis unfolding e using nh by (intro takeWhile_stop) auto
  qed
  have b: "dropWhile (\<lambda>c. c \<noteq> CHR ''#'') (P @ url_tail q f) = (if f \<noteq> [] then CHR ''#'' # f else [])"
  proof (cases "f = []")
    case True
    then have "P @ url_tail q f = P @ Q" by (simp add: url_tail_def Q_def)
    with nh True show ?thesis by (simp add: dropWhile_all)
  next
    case False
    then have e: "P @ url_tail q f = (P @ Q) @ CHR ''#'' # f" by (simp add: url_tail_def Q_def)
    have "dropWhile (\<lambda>c. c \<noteq> CHR ''#'') ((P @ Q) @ CHR ''#'' # f) = CHR ''#'' # f"
      using nh by (intro dropWhile_stop) auto
    with False e show ?thesis by simp
  qed
  have c: "takeWhile (\<lambda>c. c \<noteq> CHR ''?'') (P @ Q) = P"
  proof (cases "q = []")
    case True
    with assms(1) show ?thesis by (simp add: Q_def takeWhile_all)
  next
    case False
    then have "P @ Q = P @ CHR ''?'' # q" by (simp add: Q_def)
    moreover have "takeWhile (\<lambda>c. c \<noteq> CHR ''?'') (P @ CHR ''?'' # q) = P"
      using assms(1) by (intro takeWhile_stop) auto
    ultimately show ?thesis by simp
  qed
  have d: "dropWhile (\<lambda>c. c \<noteq> CHR ''?'') (P @ Q) = Q"
  proof (cases "q = []")
    case True
    with assms(1) show ?thesis by (simp add: Q_def dropWhile_all)
  next
    case False
    then have e: "P @ Q = P @ CHR ''?'' # q" "Q = CHR ''?'' # q" by (simp_all add: Q_def)
    have "dropWhile (\<lambda>c. c \<noteq> CHR ''?'') (P @ CHR ''?'' # q) = CHR ''?'' # q"
      using assms(1) by (intro dropWhile_stop) auto
    with e show ?thesis by simp
  qed
  show "takeWhile (\<lambda>c. c \<noteq> CHR ''?'') (takeWhile (\<lambda>c. c \<noteq> CHR ''#'') (P @ url_tail q f)) = P"
    unfolding a by (rule c)
  show "drop 1 (dropWhile (\<lambda>c. c \<noteq> CHR ''?'')
           (takeWhile (\<lambda>c. c \<noteq> CHR ''#'') (P @ url_tail q f))) = q"
    unfolding a d by (simp add: Q_def)
  show "drop 1 (dropWhile (\<lambda>c. c \<noteq> CHR ''#'') (P @ url_tail q f)) = f"
    unfolding b by simp
qed

lemma netloc_split:
  assumes "\<forall>c \<in> set loc. \<not> netloc_delim c" and "Z = [] \<or> netloc_delim (hd Z)"
  shows "netloc_part (''//'' @ loc @ Z) = loc" and "after_netloc (''//'' @ loc @ Z) = Z"
proof -
  have t: "takeWhile (\<lambda>c. \<not> netloc_delim c) (loc @ Z) = loc
           \<and> dropWhile (\<lambda>c. \<not> netloc_delim c) (loc @ Z) = Z"
  proof (cases Z)
    case Nil
    with assms(1) show ?thesis by simp
  next
    case (Cons z zs)
    with assms(2) have "\<not> \<not> netloc_delim z" by simp
    with assms(1) show ?thesis unfolding Cons
      by (intro conjI takeWhile_stop dropWhile_stop) auto
  qed
  show "netloc_part (''//'' @ loc @ Z) = loc"
    using t by (simp add: netloc_part_def splitnetloc_def)
  show "after_netloc (''//'' @ loc @ Z) = Z"
    using t by (simp add: after_netloc_def splitnetloc_def)
qed

lemma no_double_slash:
  assumes "take 2 pth \<noteq> ''//''" and "tail_ok Y"
  shows "take 2 (pth @ Y) \<noteq> ''//''"
proof (cases pth)
  case Nil
  with assms(2) show ?thesis by (cases Y) (auto simp add: tail_ok_def)
next
  case (Cons a as)
  note pa = Cons
  show ?thesis
  proof (cases as)
    case Nil
    with pa assms(2) show ?thesis by (cases Y) (auto simp add: tail_ok_def)
  next
    case (Cons b bs)
    with pa assms(1) show ?thesis by simp
  qed
qed

lemma reparse:
  assumes ok: "parts_ok lib s loc pth f"
    and q1: "CHR ''#'' \<notin> set q" and q2: "\<forall>c \<in> set q. \<not> unsafe_url_byte c"
  shows "urlsplit lib (urlunsplit (s, loc, pth, q, f)) =
           Inr \<lparr>scheme = s, netloc = loc, path = norm_path s loc pth, query = q, fragment = f\<rparr>"
    and "urlunsplit (s, loc, norm_path s loc pth, q, f) = urlunsplit (s, loc, pth, q, f)"
proof -
  define hn where "hn = (loc \<noteq> [] \<or> (s \<noteq> [] \<and> s \<in> set uses_netloc) \<or> take 2 pth = ''//'')"
  define P where "P = norm_path s loc pth"
  define T where "T = url_tail q f"
  define rest where "rest = (if hn then ''//'' @ loc @ P else pth) @ T"
  define v where "v = urlunsplit (s, loc, pth, q, f)"
  from ok have g: "s = [] \<or> good_scheme s"
    and l1: "\<forall>c \<in> set loc. \<not> netloc_delim c" and l2: "netloc_ok lib loc"
    and p1: "CHR ''?'' \<notin> set pth" and p2: "CHR ''#'' \<notin> set pth"
    and p3: "loc \<noteq> [] \<longrightarrow> pth = [] \<or> hd pth = CHR ''/''"
    and sf: "\<forall>c \<in> set (loc @ pth @ f). \<not> unsafe_url_byte c"
    and ns: "s = [] \<and> loc = [] \<and> take 2 pth \<noteq> ''//'' \<longrightarrow>
           (\<forall>Y. tail_ok Y \<longrightarrow> split_scheme (pth @ Y) = ([], pth @ Y))
           \<and> (pth \<noteq> [] \<longrightarrow> \<not> c0_control_or_space (hd pth))"
    unfolding parts_ok_def by blast+
  have tT: "tail_ok T" unfolding T_def by (rule tail_ok_url_tail)
  have v_eq: "v = (if s \<noteq> [] then s @ [CHR '':''] else []) @ rest"
    unfolding v_def rest_def hn_def P_def T_def by (simp add: urlunsplit_eq)
  have Pset: "set P \<subseteq> insert CHR ''/'' (set pth)" unfolding P_def norm_path_def by auto
  have P1: "CHR ''?'' \<notin> set P" "CHR ''#'' \<notin> set P"
    using Pset p1 p2 by auto
  have Phd: "hn \<Longrightarrow> P = [] \<or> hd P = CHR ''/''"
    unfolding P_def norm_path_def hn_def by (cases pth) auto
  have Pn: "\<not> hn \<Longrightarrow> P = pth" unfolding P_def norm_path_def hn_def by auto
  have an: "(if hn then ''//'' @ loc @ P else pth) = (if hn then ''//'' @ loc @ P else P)"
    using Pn by auto
  have Tsafe: "\<forall>c \<in> set T. \<not> unsafe_url_byte c"
    using q2 sf delims_plain by (auto simp add: T_def url_tail_def split: if_splits)
  have rsafe: "\<forall>c \<in> set rest. \<not> unsafe_url_byte c"
    using Tsafe sf Pset delims_plain by (auto simp add: rest_def split: if_splits)
  have PT: "P @ T = [] \<or> netloc_delim (hd (P @ T)) \<or> \<not> hn"
  proof (cases hn)
    case True
    from Phd [OF True] tT show ?thesis
      by (cases P; cases T) (auto simp add: tail_ok_def netloc_delim_def)
  qed simp
  text \<open>first step: nothing is stripped\<close>
  have vsafe: "\<forall>c \<in> set v. \<not> unsafe_url_byte c"
  proof (cases "s = []")
    case True
    with rsafe show ?thesis by (simp add: v_eq)
  next
    case False
    with g have "good_scheme s" by simp
    from good_scheme_facts(7) [OF this] rsafe delims_plain show ?thesis
      by (auto simp add: v_eq)
  qed
  have vhd: "v = [] \<or> \<not> c0_control_or_space (hd v)"
  proof (cases "s = []")
    case False
    with g have gs: "good_scheme s" by simp
    from good_scheme_facts(1,8) [OF gs] show ?thesis by (simp add: v_eq)
  next
    case True
    note s0 = True
    show ?thesis
    proof (cases hn)
      case True
      with s0 delims_plain show ?thesis by (simp add: v_eq rest_def)
    next
      case False
      then have l0: "loc = []" and t2: "take 2 pth \<noteq> ''//''" unfolding hn_def by auto
      from ns s0 l0 t2 have ph: "pth \<noteq> [] \<longrightarrow> \<not> c0_control_or_space (hd pth)" by blast
      show ?thesis
      proof (cases pth)
        case Nil
        with s0 False tT delims_plain show ?thesis
          by (cases T) (auto simp add: v_eq rest_def tail_ok_def)
      next
        case (Cons a as)
        with ph s0 False show ?thesis by (simp add: v_eq rest_def)
      qed
    qed
  qed
  have cl: "clean v = v" using vsafe vhd by (rule clean_id)
  text \<open>second step: the scheme\<close>
  have ss: "split_scheme v = (s, rest)"
  proof (cases "s = []")
    case False
    with g have gs: "good_scheme s" by simp
    from split_scheme_good [OF gs, of rest] False show ?thesis by (simp add: v_eq)
  next
    case True
    note s0 = True
    show ?thesis
    proof (cases hn)
      case True
      then have "rest = [] \<or> \<not> ascii_isalpha (hd rest)"
        using delims_plain by (simp add: rest_def)
      then have "split_scheme rest = ([], rest)" by (rule split_scheme_nonalpha)
      with s0 show ?thesis by (simp add: v_eq)
    next
      case False
      then have l0: "loc = []" and t2: "take 2 pth \<noteq> ''//''" unfolding hn_def by auto
      from ns s0 l0 t2 tT have "split_scheme (pth @ T) = ([], pth @ T)" by blast
      with s0 False show ?thesis by (simp add: v_eq rest_def)
    qed
  qed
  text \<open>third step: the netloc\<close>
  have nl: "netloc_part rest = loc \<and> after_netloc rest = P @ T"
  proof (cases hn)
    case True
    with PT have z: "P @ T = [] \<or> netloc_delim (hd (P @ T))" by blast
    from netloc_split [OF l1 z] True show ?thesis by (simp add: rest_def)
  next
    case False
    then have l0: "loc = []" and t2: "take 2 pth \<noteq> ''//''" unfolding hn_def by auto
    from t2 tT have "take 2 (pth @ T) \<noteq> ''//''" by (rule no_double_slash)
    then have "netloc_part (pth @ T) = [] \<and> after_netloc (pth @ T) = pth @ T" by (rule no_netloc)
    with False l0 Pn show ?thesis by (simp add: rest_def)
  qed
  text \<open>fourth step: fragment and query\<close>
  note st = split_tail [OF P1 q1, of f, folded T_def]
  from ss have ss': "split_scheme (filter (\<lambda>c. \<not> unsafe_url_byte c)
                        (dropWhile c0_control_or_space v)) = (s, rest)"
    using cl by (simp add: clean_def)
  show "urlsplit lib (urlunsplit (s, loc, pth, q, f)) =
           Inr \<lparr>scheme = s, netloc = loc, path = norm_path s loc pth, query = q, fragment = f\<rparr>"
    using urlsplit_eq [OF ss', of lib] nl l2 st
    by (simp add: v_def [symmetric] P_def [symmetric])
  text \<open>putting the parts together again gives the same text\<close>
  have hn': "(loc \<noteq> [] \<or> (s \<noteq> [] \<and> s \<in> set uses_netloc) \<or> take 2 P = ''//'') = hn"
  proof (cases hn)
    case True
    show ?thesis
    proof (cases "take 2 pth = ''//''")
      case True
      then have "P = pth" unfolding P_def norm_path_def by (cases pth) auto
      with True \<open>hn\<close> show ?thesis by simp
    next
      case False
      with True show ?thesis unfolding hn_def by auto
    qed
  next
    case False
    with Pn show ?thesis unfolding hn_def by auto
  qed
  have idem: "norm_path s loc P = P"
  proof (cases hn)
    case True
    from Phd [OF True] show ?thesis unfolding norm_path_def by (cases P) auto
  next
    case False
    with hn' show ?thesis unfolding norm_path_def by auto
  qed
  have "urlunsplit (s, loc, P, q, f) = (if s \<noteq> [] then s @ [CHR '':''] else []) @ rest"
    unfolding urlunsplit_eq hn' idem rest_def T_def an by simp
  with v_eq show "urlunsplit (s, loc, norm_path s loc pth, q, f) = urlunsplit (s, loc, pth, q, f)"
    unfolding v_def P_def by simp
qed

section \<open>Links whose parameters are all tracking parameters\<close>

lemma scrub_loop_all_tracking:
  "\<forall>k \<in> set (map fst d). k \<in> TRACKING_PARAMETERS \<Longrightarrow>
   scrub_loop d fd ft = (fd, ft @ map fst d)"
  by (induction d arbitrary: ft) auto

text \<open>
  Claim C3, as the code has it. \<open>parse_qs\<close> drops every field whose value is blank.
  When the query is not empty, \<open>parse_qs\<close> reads at least one parameter from it and
  every parameter it reads is in the block-list, \<open>parse_url\<close> returns a URL whose query
  component is empty and records exactly one tracking warning, with the names read, and
  exactly one simplification warning (after the scheme warning, when the scheme calls for
  one).
\<close>

theorem only_tracking_parameters:
  assumes "urlsplit lib link = Inr p" and "query p \<noteq> []"
    and "parse_qs (query p) \<noteq> []"
    and "\<forall>k \<in> set (map fst (parse_qs (query p))). k \<in> TRACKING_PARAMETERS"
  shows "\<exists>v p'. fst (parse_url lib link ws) = Inr v
           \<and> urlsplit lib v = Inr p' \<and> query p' = []
           \<and> snd (parse_url lib link ws) =
               ws @ (if scheme p \<notin> set [''mailto'', ''http'', ''https'']
                     then [Malformed link] else [])
                  @ [Tracking link (map fst (parse_qs (query p))), Simplify link v]"
proof -
  define v where "v = urlunsplit (scheme p, netloc p, path p, [], fragment p)"
  from assms(1) have ok: "parts_ok lib (scheme p) (netloc p) (path p) (fragment p)"
    by (rule urlsplit_parts_ok)
  have re: "urlsplit lib v =
              Inr \<lparr>scheme = scheme p, netloc = netloc p,
                    path = norm_path (scheme p) (netloc p) (path p), query = [],
                    fragment = fragment p\<rparr>"
    unfolding v_def by (rule reparse(1) [OF ok]) simp_all
  have ne: "v \<noteq> link"
  proof
    assume "v = link"
    with re assms(1) have "query p = []" by simp (metis SplitResult.select_convs(4))
    with assms(2) show False by simp
  qed
  have sl: "scrub_loop (parse_qs (query p)) [] [] = ([], map fst (parse_qs (query p)))"
    using scrub_loop_all_tracking [OF assms(4), of "[]" "[]"] by simp
  have sp: "\<And>w. scrub_parameters link (query p) w =
              (Inr [], w @ [Tracking link (map fst (parse_qs (query p)))])"
    using assms(3) by (simp add: scrub_parameters_def sl warn_def Let_def)
  have "fst (parse_url lib link ws) = Inr v"
    and "snd (parse_url lib link ws) =
               ws @ (if scheme p \<notin> set [''mailto'', ''http'', ''https'']
                     then [Malformed link] else [])
                  @ [Tracking link (map fst (parse_qs (query p))), Simplify link v]"
    using assms(1,2) ne
    by (simp_all add: parse_url_def sp warn_def Let_def v_def [symmetric])
  with re show ?thesis by auto
qed

text \<open>The theorem at a link with two tracking parameters.\<close>

theorem only_tracking_parameters_witness:
  "\<exists>v p'. fst (parse_url lib0 ''https://example.com/a?utm_source=x&utm_medium=y'' []) = Inr v
       \<and> urlsplit lib0 v = Inr p' \<and> query p' = []
       \<and> snd (parse_url lib0 ''https://example.com/a?utm_source=x&utm_medium=y'' []) =
           [] @ (if scheme \<lparr>scheme = ''https'', netloc = ''example.com'', path = ''/a'',
                            query = ''utm_source=x&utm_medium=y'', fragment = []\<rparr>
                      \<notin> set [''mailto'', ''http'', ''https'']
                 then [Malformed ''https://example.com/a?utm_source=x&utm_medium=y''] else [])
              @ [Tracking ''https://example.com/a?utm_source=x&utm_medium=y''
                   (map fst (parse_qs (query \<lparr>scheme = ''https'', netloc = ''example.com'',
                      path = ''/a'', query = ''utm_source=x&utm_medium=y'', fragment = []\<rparr>))),
                 Simplify ''https://example.com/a?utm_source=x&utm_medium=y'' v]"
proof -
  let ?p = "\<lparr>scheme = ''https'', netloc = ''example.com'', path = ''/a'',
             query = ''utm_source=x&utm_medium=y'', fragment = []\<rparr>"
  have h1: "urlsplit lib0 ''https://example.com/a?utm_source=x&utm_medium=y'' = Inr ?p"
    by code_simp
  have h2: "query ?p \<noteq> []" by simp
  have h3: "parse_qs (query ?p) \<noteq> []" by code_simp
  have h4: "\<forall>k \<in> set (map fst (parse_qs (query ?p))). k \<in> TRACKING_PARAMETERS"
    by code_simp
  show ?thesis by (rule only_tracking_parameters [OF h1 h2 h3 h4])
qed

text \<open>
  Claim C3 as stated fails: the query \<open>utm_source=\<close> is not empty and holds no
  parameter outside the block-list, but its only field has a blank value, so
  \<open>parse_qs\<close> reads nothing and no tracking warning is recorded.
\<close>

theorem only_tracking_parameters_counterexample:
  "urlsplit lib0 ''https://example.com/a?utm_source='' =
     Inr \<lparr>scheme = ''https'', netloc = ''example.com'', path = ''/a'',
           query = ''utm_source='', fragment = []\<rparr>
   \<and> parse_url lib0 ''https://example.com/a?utm_source='' [] =
       (Inr ''https://example.com/a'',
        [Simplify ''https://example.com/a?utm_source='' ''https://example.com/a''])
   \<and> filter is_tracking (snd (parse_url lib0 ''https://example.com/a?utm_source='' [])) = []"
  by code_simp

end
